theory Spec2Isabelle
  imports Main "HOL-Library.AList"
begin

section \<open>Dense arrays\<close>

text \<open>
  The module \<^verbatim>\<open>component_vis/utils.py\<close> is a thin layer over NumPy. A dense array is
  modelled by its shape together with its elements in row-major (C) order, which is the
  order NumPy's \<^verbatim>\<open>reshape\<close> reads and writes. Elements live in a commutative semiring,
  so sums and products are exact; floating-point rounding is outside this model.

  Errors are values. The two \<^verbatim>\<open>ValueError\<close>s are kept apart by who raises them:
  \<open>ModesValueError\<close> is the one raised by the label loops of \<^verbatim>\<open>cp_to_tensor\<close> and
  \<^verbatim>\<open>tucker_to_tensor\<close>, \<open>NumpyValueError\<close> is raised inside NumPy. \<open>Unsupported\<close> is not
  a Python exception: it marks inputs of a NumPy primitive that this model does not cover.
\<close>

datatype error =
    TypeError
  | ModesValueError
  | NumpyValueError
  | AxisError
  | IndexError
  | AttributeError
  | Unsupported

datatype 'a ndarray = NDArray (shape: "nat list") (data: "'a list")

definition ndim :: "'a ndarray \<Rightarrow> nat" where
  "ndim a = length (shape a)"

definition wf_array :: "'a ndarray \<Rightarrow> bool" where
  "wf_array a = (length (data a) = prod_list (shape a))"

text \<open>Row-major offset of a multi-index, and the multi-indices of a shape in row-major order.\<close>

fun ravel :: "nat list \<Rightarrow> nat list \<Rightarrow> nat" where
  "ravel (n # ns) (i # is) = i * prod_list ns + ravel ns is"
| "ravel _ _ = 0"

fun ndindex :: "nat list \<Rightarrow> nat list list" where
  "ndindex [] = [[]]"
| "ndindex (n # ns) = concat (map (\<lambda>i. map ((#) i) (ndindex ns)) [0..<n])"

definition valid_index :: "nat list \<Rightarrow> nat list \<Rightarrow> bool" where
  "valid_index shp idx = list_all2 (\<lambda>i n. i < n) idx shp"

definition item :: "'a ndarray \<Rightarrow> nat list \<Rightarrow> 'a" where
  "item a idx = data a ! ravel (shape a) idx"

text \<open>First binding of a key in an association list (0 when the key is unbound).\<close>

fun lookup :: "('k \<times> nat) list \<Rightarrow> 'k \<Rightarrow> nat" where
  "lookup [] k = 0"
| "lookup ((k', v) # kvs) k = (if k' = k then v else lookup kvs k)"

subsection \<open>NumPy primitives used by the module\<close>

text \<open>
  \<^verbatim>\<open>ndarray.reshape\<close>: a negative entry of the new shape is the one unknown extent; it is
  inferred from the size, and the inference is refused when the known extents multiply
  to zero or do not divide the size. The elements keep their row-major order.
\<close>

definition reshape :: "'a ndarray \<Rightarrow> int list \<Rightarrow> error + 'a ndarray" where
  "reshape a newshape =
     (let s_original = prod_list (shape a);
          s_known = prod_list (map nat (filter (\<lambda>d. 0 \<le> d) newshape));
          n_unknown = length (filter (\<lambda>d. d < 0) newshape)
      in if 1 < n_unknown then Inl NumpyValueError
         else if n_unknown = 1 then
           (if s_known = 0 \<or> s_original mod s_known \<noteq> 0 then Inl NumpyValueError
            else Inr (NDArray (map (\<lambda>d. if d < 0 then s_original div s_known else nat d) newshape)
                              (data a)))
         else if s_original \<noteq> s_known then Inl NumpyValueError
         else Inr (NDArray (map nat newshape) (data a)))"

text \<open>\<^verbatim>\<open>ndarray.item()\<close>: the single element of an array of size one.\<close>

definition item_scalar :: "'a ndarray \<Rightarrow> error + 'a" where
  "item_scalar a = (case data a of [v] \<Rightarrow> Inr v | _ \<Rightarrow> Inl NumpyValueError)"

text \<open>Axis normalisation: an axis \<open>-ndim \<le> axis < ndim\<close> counts from the end when negative.\<close>

definition normalize_axis_index :: "int \<Rightarrow> nat \<Rightarrow> error + nat" where
  "normalize_axis_index axis n =
     (if - int n \<le> axis \<and> axis < int n
      then Inr (nat (if axis < 0 then axis + int n else axis))
      else Inl AxisError)"

text \<open>
  \<^verbatim>\<open>ndarray.transpose(order)\<close>: axis \<open>k\<close> of the result is axis \<open>order ! k\<close> of the
  argument.
\<close>

definition transpose_axes :: "'a ndarray \<Rightarrow> nat list \<Rightarrow> 'a ndarray" where
  "transpose_axes a order =
     (let newshape = map (\<lambda>ax. shape a ! ax) order
      in NDArray newshape
           (map (\<lambda>idx. item a (map (lookup (zip order idx)) [0..<length order]))
                (ndindex newshape)))"

text \<open>
  \<^verbatim>\<open>numpy.moveaxis(a, source, destination)\<close> for single axes: the other axes keep their
  order and \<open>source\<close> is inserted at position \<open>destination\<close>.
\<close>

definition moveaxis :: "'a ndarray \<Rightarrow> int \<Rightarrow> int \<Rightarrow> error + 'a ndarray" where
  "moveaxis a source destination =
     (case normalize_axis_index source (ndim a) of
        Inl e \<Rightarrow> Inl e
      | Inr src \<Rightarrow>
          (case normalize_axis_index destination (ndim a) of
             Inl e \<Rightarrow> Inl e
           | Inr dst \<Rightarrow>
               (let order = filter (\<lambda>n. n \<noteq> src) [0..<ndim a]
                in Inr (transpose_axes a (take dst order @ [src] @ drop dst order)))))"

text \<open>Python tuple indexing \<^verbatim>\<open>t[i]\<close>, negative indices counting from the end.\<close>

definition tuple_get :: "'b list \<Rightarrow> int \<Rightarrow> error + 'b" where
  "tuple_get t i =
     (let n = int (length t); j = (if i < 0 then n + i else i)
      in if 0 \<le> j \<and> j < n then Inr (t ! nat j) else Inl IndexError)"

section \<open>\<^verbatim>\<open>extract_singleton\<close>\<close>

text \<open>\<^verbatim>\<open>np.asarray(x).reshape(-1).item()\<close>\<close>

definition extract_singleton :: "'a ndarray \<Rightarrow> error + 'a" where
  "extract_singleton x =
     (case reshape x [-1] of Inl e \<Rightarrow> Inl e | Inr flat \<Rightarrow> item_scalar flat)"

section \<open>\<^verbatim>\<open>unfold_tensor\<close>\<close>

text \<open>
  The decorator \<^verbatim>\<open>_alias_mode_axis\<close>. An argument that is absent and one passed as
  \<^verbatim>\<open>None\<close> are both \<open>None\<close> here; \<open>mode_default_value\<close> is the default of \<^verbatim>\<open>mode\<close> in the
  decorated signature (\<^verbatim>\<open>None\<close> when it has none). Reading an absent \<^verbatim>\<open>mode\<close> as \<open>None\<close> is
  what the code does when that default is \<open>None\<close>, as it is for \<^verbatim>\<open>unfold_tensor\<close>, the only
  function decorated; for another default the code would read the default instead, which
  this definition does not cover.
\<close>

definition alias_mode_axis ::
  "int option \<Rightarrow> (int option \<Rightarrow> int option \<Rightarrow> error + 'r) \<Rightarrow> int option \<Rightarrow> int option \<Rightarrow> error + 'r"
where
  "alias_mode_axis mode_default_value func mode axis =
     (if mode = None \<and> axis = None then Inl TypeError
      else if mode \<noteq> mode_default_value \<and> axis \<noteq> None then Inl TypeError
      else if axis \<noteq> None then func axis axis
      else func mode axis)"

text \<open>
  The body of \<^verbatim>\<open>unfold_tensor\<close>: \<^verbatim>\<open>np.moveaxis(dataset, mode, 0).reshape(dataset.shape[mode], -1)\<close>.
  NumPy rejects \<^verbatim>\<open>mode=None\<close> with a \<^verbatim>\<open>TypeError\<close>.
\<close>

definition unfold_tensor_body :: "'a ndarray \<Rightarrow> int option \<Rightarrow> int option \<Rightarrow> error + 'a ndarray" where
  "unfold_tensor_body dataset mode axis =
     (case mode of
        None \<Rightarrow> Inl TypeError
      | Some m \<Rightarrow>
          (case moveaxis dataset m 0 of
             Inl e \<Rightarrow> Inl e
           | Inr moved \<Rightarrow>
               (case tuple_get (shape dataset) m of
                  Inl e \<Rightarrow> Inl e
                | Inr n \<Rightarrow> reshape moved [int n, -1])))"

text \<open>
  \<^verbatim>\<open>unfold_tensor(tensor, mode, axis=None)\<close> as decorated. The outer decorator
  \<^verbatim>\<open>_handle_labelled_dataset\<close> lives in another module; for a dense array it passes the
  call through.
\<close>

definition unfold_tensor :: "'a ndarray \<Rightarrow> int option \<Rightarrow> int option \<Rightarrow> error + 'a ndarray" where
  "unfold_tensor tensor mode axis =
     alias_mode_axis None (unfold_tensor_body tensor) mode axis"

section \<open>\<^verbatim>\<open>numpy.einsum\<close>\<close>

text \<open>
  The fragment of \<^verbatim>\<open>numpy.einsum\<close> that the module drives: a subscripts string with an
  explicit output (\<^verbatim>\<open>"ij, jk -> ik"\<close>), one comma-separated group of letters per operand,
  blanks ignored. The result at an output index is the sum, over all values of the
  labels missing from the output, of the product of the operands' elements.
  Two features of NumPy are left out and reported as \<open>Unsupported\<close>: the implicit output
  and the ellipsis, and the broadcasting of an extent of 1 against a larger one. NumPy's
  build-time limits on the number of operands and of subscripts are not modelled either.
\<close>

definition isalpha :: "char \<Rightarrow> bool" where
  "isalpha c = (let n = (of_char c :: nat) in (65 \<le> n \<and> n \<le> 90) \<or> (97 \<le> n \<and> n \<le> 122))"

definition strip_blanks :: "string \<Rightarrow> string" where
  "strip_blanks s = filter (\<lambda>c. c \<noteq> CHR '' '') s"

fun split_on :: "char \<Rightarrow> string \<Rightarrow> string list" where
  "split_on sep [] = [[]]"
| "split_on sep (c # cs) =
     (if c = sep then [] # split_on sep cs
      else (case split_on sep cs of [] \<Rightarrow> [[c]] | w # ws \<Rightarrow> (c # w) # ws))"

text \<open>The operands' part ends at the first \<^verbatim>\<open>-\<close>, which has to start \<^verbatim>\<open>->\<close>.\<close>

fun split_arrow :: "string \<Rightarrow> error + string \<times> string" where
  "split_arrow [] = Inl Unsupported"
| "split_arrow (c # cs) =
     (if c = CHR ''-'' then
        (case cs of
           [] \<Rightarrow> Inl NumpyValueError
         | d # ds \<Rightarrow> if d = CHR ''>'' then Inr ([], ds) else Inl NumpyValueError)
      else (case split_arrow cs of
              Inl e \<Rightarrow> Inl e
            | Inr (lhs, rhs) \<Rightarrow> Inr (c # lhs, rhs)))"

definition parse_subscripts :: "string \<Rightarrow> error + string list \<times> string" where
  "parse_subscripts subscripts =
     (case split_arrow subscripts of
        Inl e \<Rightarrow> Inl e
      | Inr (lhs, rhs) \<Rightarrow>
          (let ins = map strip_blanks (split_on CHR '','' lhs);
               out = strip_blanks rhs
           in if CHR ''.'' \<in> set (concat ins @ out) then Inl Unsupported
              else if \<not> list_all isalpha (concat ins @ out) then Inl NumpyValueError
              else Inr (ins, out)))"

text \<open>
  The contraction for parsed subscripts. \<open>extents\<close> lists every label with the extent
  of each axis it names; the labels of the output come first in the index environment,
  then the summed ones.
\<close>

definition contract ::
  "string list \<Rightarrow> string \<Rightarrow> 'a::comm_semiring_1 ndarray list \<Rightarrow> error + 'a ndarray"
where
  "contract ins out operands =
     (if length ins \<noteq> length operands then Inl NumpyValueError
      else if \<not> list_all2 (\<lambda>ls a. length ls = ndim a) ins operands then Inl NumpyValueError
      else
        (let extents = concat (map2 (\<lambda>ls a. zip ls (shape a)) ins operands)
         in if \<not> list_all (\<lambda>(l, n). lookup extents l = n) extents then
              (if 1 \<in> snd ` set extents then Inl Unsupported else Inl NumpyValueError)
            else if \<not> distinct out \<or> \<not> set out \<subseteq> set (concat ins) then Inl NumpyValueError
            else
              (let summed = remdups (filter (\<lambda>l. l \<notin> set out) (concat ins));
                   labels = out @ summed;
                   summand = (\<lambda>idx. prod_list
                             (map2 (\<lambda>ls a. item a (map (lookup (zip labels idx)) ls)) ins operands))
               in Inr (NDArray (map (lookup extents) out)
                        (map (\<lambda>oi. sum_list (map (\<lambda>si. summand (oi @ si))
                                                  (ndindex (map (lookup extents) summed))))
                             (ndindex (map (lookup extents) out)))))))"

definition einsum :: "string \<Rightarrow> 'a::comm_semiring_1 ndarray list \<Rightarrow> error + 'a ndarray" where
  "einsum subscripts operands =
     (case parse_subscripts subscripts of
        Inl e \<Rightarrow> Inl e
      | Inr (ins, out) \<Rightarrow> contract ins out operands)"

text \<open>\<^verbatim>\<open>numpy.ones(n)\<close>\<close>

definition ones :: "nat \<Rightarrow> 'a::comm_semiring_1 ndarray" where
  "ones n = NDArray [n] (replicate n 1)"

section \<open>Decompositions\<close>

text \<open>
  A factor matrix is a plain 2-D array or a labelled table (a data frame): its values,
  its row labels (\<^verbatim>\<open>index.values\<close>) and the optional name of its index (\<^verbatim>\<open>index.name\<close>).
  The result of a reconstruction is a plain array or a labelled one
  (\<^verbatim>\<open>xr.DataArray(tensor, dims=dims, coords=coords_dict)\<close>, recorded with the arguments it
  is built from; the dictionary is an association list in insertion order).
\<close>

datatype ('a, 'l) matrix =
    Array "'a ndarray"
  | DataFrame "'a ndarray" "'l list" "string option"

datatype ('a, 'l) dense =
    Ndarray "'a ndarray"
  | DataArray "'a ndarray" "string list" "(string \<times> 'l list) list"

fun asarray :: "('a, 'l) matrix \<Rightarrow> 'a ndarray" where
  "asarray (Array a) = a"
| "asarray (DataFrame a labels name) = a"

fun is_dataframe :: "('a, 'l) matrix \<Rightarrow> bool" where
  "is_dataframe (Array a) = False"
| "is_dataframe (DataFrame a labels name) = True"

text \<open>
  Modelled from the spec: \<^verbatim>\<open>is_labelled_cp\<close> is imported from \<^verbatim>\<open>xarray_wrapper\<close>, which is
  not among the sources. The spec describes it as the check that all factor matrices of
  the decomposition carry row labels.
\<close>

definition is_labelled_cp :: "'a ndarray option \<times> ('a, 'l) matrix list \<Rightarrow> bool" where
  "is_labelled_cp cp_tensor = list_all is_dataframe (snd cp_tensor)"

text \<open>
  Python's \<^verbatim>\<open>ord\<close> and \<^verbatim>\<open>chr\<close>. A \<^typ>\<open>char\<close> is a byte, so \<open>chr\<close> is exact below 256; the
  loops below stop at \<^verbatim>\<open>chr(123)\<close>.
\<close>

definition ord :: "char \<Rightarrow> nat" where
  "ord c = of_char c"

definition chr :: "nat \<Rightarrow> char" where
  "chr n = char_of n"

text \<open>\<^verbatim>\<open>str(n)\<close> for a natural number, as an f-string prints it.\<close>

fun str :: "nat \<Rightarrow> string" where
  "str n = (if n < 10 then [chr (ord CHR ''0'' + n)] else str (n div 10) @ [chr (ord CHR ''0'' + n mod 10)])"

declare str.simps [simp del]

section \<open>\<^verbatim>\<open>cp_to_tensor\<close>\<close>

text \<open>Lines 104-107: the weights, all ones when omitted, flattened otherwise.\<close>

definition cp_weights ::
  "'a::comm_semiring_1 ndarray option \<times> ('a, 'l) matrix list \<Rightarrow> error + 'a ndarray"
where
  "cp_weights cp_tensor =
     (case fst cp_tensor of
        None \<Rightarrow>
          (case snd cp_tensor of
             [] \<Rightarrow> Inl IndexError
           | fm # _ \<Rightarrow>
               (case tuple_get (shape (asarray fm)) 1 of
                  Inl e \<Rightarrow> Inl e
                | Inr r \<Rightarrow> Inr (ones r)))
      | Some w \<Rightarrow> reshape w [-1])"

text \<open>Lines 109-120: the loop over \<^verbatim>\<open>range(len(cp_tensor[1]))\<close> that builds the subscripts.\<close>

fun cp_subscripts :: "nat list \<Rightarrow> string \<times> string \<Rightarrow> error + string \<times> string" where
  "cp_subscripts [] acc = Inr acc"
| "cp_subscripts (mode # modes) (einsum_input, einsum_output) =
     (let idx = chr (ord CHR ''a'' + mode)
      in if ord idx > ord CHR ''z'' then Inl ModesValueError
         else cp_subscripts modes (einsum_input @ '', '' @ [idx] @ ''R'', einsum_output @ [idx]))"

text \<open>Lines 104-122: the dense reconstruction.\<close>

definition cp_dense ::
  "'a::comm_semiring_1 ndarray option \<times> ('a, 'l) matrix list \<Rightarrow> error + 'a ndarray"
where
  "cp_dense cp_tensor =
     (case cp_weights cp_tensor of
        Inl e \<Rightarrow> Inl e
      | Inr weights \<Rightarrow>
          (case cp_subscripts [0..<length (snd cp_tensor)] (''R'', '''') of
             Inl e \<Rightarrow> Inl e
           | Inr (einsum_input, einsum_output) \<Rightarrow>
               einsum (einsum_input @ '' -> '' @ einsum_output)
                      (weights # map asarray (snd cp_tensor))))"

text \<open>
  Lines 128-136: the loop over \<^verbatim>\<open>enumerate(cp_tensor[1])\<close> that collects the axis names and
  coordinates (\<^const>\<open>enumerate\<close> is the list library's, started at 0). Reading
  \<^verbatim>\<open>fm.index\<close> of a plain array raises \<^verbatim>\<open>AttributeError\<close>.
\<close>

fun cp_coords ::
  "(nat \<times> ('a, 'l) matrix) list \<Rightarrow> (string \<times> 'l list) list \<times> string list \<Rightarrow>
   error + (string \<times> 'l list) list \<times> string list"
where
  "cp_coords [] acc = Inr acc"
| "cp_coords ((mode, Array a) # rest) acc = Inl AttributeError"
| "cp_coords ((mode, DataFrame a labels name) # rest) (coords_dict, dims) =
     (let mode_name = (case name of None \<Rightarrow> ''Mode '' @ str mode | Some n \<Rightarrow> n)
      in cp_coords rest (AList.update mode_name labels coords_dict, dims @ [mode_name]))"

definition cp_to_tensor ::
  "'a::comm_semiring_1 ndarray option \<times> ('a, 'l) matrix list \<Rightarrow> error + ('a, 'l) dense"
where
  "cp_to_tensor cp_tensor =
     (case cp_dense cp_tensor of
        Inl e \<Rightarrow> Inl e
      | Inr tensor \<Rightarrow>
          if \<not> is_labelled_cp cp_tensor then Inr (Ndarray tensor)
          else
            (case cp_coords (enumerate 0 (snd cp_tensor)) ([], []) of
               Inl e \<Rightarrow> Inl e
             | Inr (coords_dict, dims) \<Rightarrow> Inr (DataArray tensor dims coords_dict)))"

section \<open>\<^verbatim>\<open>tucker_to_tensor\<close>\<close>

fun tucker_subscripts ::
  "nat list \<Rightarrow> string \<times> string \<times> string \<Rightarrow> error + string \<times> string \<times> string"
where
  "tucker_subscripts [] acc = Inr acc"
| "tucker_subscripts (mode # modes) (einsum_core, einsum_input, einsum_output) =
     (let idx = chr (ord CHR ''a'' + mode);
          rank_idx = chr (ord CHR ''A'' + mode)
      in if ord idx > ord CHR ''z'' then Inl ModesValueError
         else tucker_subscripts modes
                (einsum_core @ [rank_idx], einsum_input @ '', '' @ [idx, rank_idx], einsum_output @ [idx]))"

definition tucker_to_tensor ::
  "'a::comm_semiring_1 ndarray \<times> ('a, 'l) matrix list \<Rightarrow> error + ('a, 'l) dense"
where
  "tucker_to_tensor tucker_tensor =
     (case tucker_subscripts [0..<length (snd tucker_tensor)] ('''', '''', '''') of
        Inl e \<Rightarrow> Inl e
      | Inr (einsum_core, einsum_input, einsum_output) \<Rightarrow>
          (case einsum (einsum_core @ einsum_input @ '' -> '' @ einsum_output)
                       (fst tucker_tensor # map asarray (snd tucker_tensor)) of
             Inl e \<Rightarrow> Inl e
           | Inr tensor \<Rightarrow> Inr (Ndarray tensor)))"

section \<open>Notions used to state the properties\<close>

text \<open>A list without its \<open>k\<close>-th element: the extents, or the indices, of the other axes.\<close>

definition remove_nth :: "nat \<Rightarrow> 'b list \<Rightarrow> 'b list" where
  "remove_nth k xs = take k xs @ drop (Suc k) xs"

text \<open>
  An axis index is valid for an array when NumPy accepts it, \<open>-ndim \<le> m < ndim\<close>; its
  position counts from the front.
\<close>

definition valid_axis :: "'a ndarray \<Rightarrow> int \<Rightarrow> bool" where
  "valid_axis t m = (- int (ndim t) \<le> m \<and> m < int (ndim t))"

definition axis_position :: "'a ndarray \<Rightarrow> int \<Rightarrow> nat" where
  "axis_position t m = nat (if m < 0 then m + int (ndim t) else m)"

text \<open>
  The inverse of the unfolding, as the round-trip property words it: reshape to the shape
  with axis \<open>m\<close> in front, then move axis 0 back to position \<open>m\<close>
  (\<^verbatim>\<open>np.moveaxis(u.reshape(shape[m], *others), 0, m)\<close>).
\<close>

definition fold_back :: "'a ndarray \<Rightarrow> nat list \<Rightarrow> int \<Rightarrow> error + 'a ndarray" where
  "fold_back u shp m =
     (case normalize_axis_index m (length shp) of
        Inl e \<Rightarrow> Inl e
      | Inr k \<Rightarrow>
          (case reshape u (map int (shp ! k # remove_nth k shp)) of
             Inl e \<Rightarrow> Inl e
           | Inr v \<Rightarrow> moveaxis v 0 m))"

definition round_trip :: "'a ndarray \<Rightarrow> int \<Rightarrow> error + 'a ndarray" where
  "round_trip t m =
     (case unfold_tensor t (Some m) None of
        Inl e \<Rightarrow> Inl e
      | Inr u \<Rightarrow> fold_back u (shape t) m)"

text \<open>
  The two axis orders that \<^const>\<open>moveaxis\<close> hands to \<^const>\<open>transpose_axes\<close>: axis \<open>k\<close>
  moved to the front, and axis 0 moved to position \<open>k\<close>; and the array with axis \<open>k\<close> in
  front.
\<close>

definition front_order :: "nat \<Rightarrow> nat \<Rightarrow> nat list" where
  "front_order k n = k # [0..<k] @ [Suc k..<n]"

definition back_order :: "nat \<Rightarrow> nat \<Rightarrow> nat list" where
  "back_order k n = [1..<Suc k] @ 0 # [Suc k..<n]"

definition moved_front :: "'a ndarray \<Rightarrow> nat \<Rightarrow> 'a ndarray" where
  "moved_front t k = transpose_axes t (front_order k (ndim t))"

text \<open>The subscript letters of a mode: \<^verbatim>\<open>idx\<close> and \<^verbatim>\<open>rank_idx\<close> in the loops.\<close>

definition mode_label :: "nat \<Rightarrow> char" where
  "mode_label m = chr (ord CHR ''a'' + m)"

definition rank_label :: "nat \<Rightarrow> char" where
  "rank_label m = chr (ord CHR ''A'' + m)"

text \<open>The number of rows of a factor matrix, and the array inside a result.\<close>

definition nrows :: "('a, 'l) matrix \<Rightarrow> nat" where
  "nrows fm = (case shape (asarray fm) of [] \<Rightarrow> 0 | n # _ \<Rightarrow> n)"

fun tensor_values :: "('a, 'l) dense \<Rightarrow> 'a ndarray" where
  "tensor_values (Ndarray t) = t"
| "tensor_values (DataArray t dims coords) = t"

text \<open>
  The CP formula: the sum over the rank index \<open>r\<close> of the weight times the product over
  the modes of \<open>A\<^sub>m[i\<^sub>m, r]\<close>. The Tucker formula: the sum over the index combinations of
  the core of the core's element times the product over the modes of \<open>A\<^sub>m[i\<^sub>m, r\<^sub>m]\<close>.
\<close>

definition cp_formula ::
  "'a::comm_semiring_1 list \<Rightarrow> ('a, 'l) matrix list \<Rightarrow> nat list \<Rightarrow> 'a"
where
  "cp_formula w fs idx =
     (\<Sum>r<length w. w ! r * (\<Prod>m<length fs. item (asarray (fs ! m)) [idx ! m, r]))"

definition tucker_formula ::
  "'a::comm_semiring_1 ndarray \<Rightarrow> ('a, 'l) matrix list \<Rightarrow> nat list \<Rightarrow> 'a"
where
  "tucker_formula core fs idx =
     (\<Sum>ridx\<leftarrow>ndindex (shape core).
        item core ridx * (\<Prod>m<length fs. item (asarray (fs ! m)) [idx ! m, ridx ! m]))"

text \<open>An array of any shape flattened to a vector in row-major order.\<close>

definition flatten :: "'a ndarray \<Rightarrow> 'a ndarray" where
  "flatten a = NDArray [length (data a)] (data a)"

text \<open>
  The axis name the labelling gives to a mode (the declared name of the index, else
  \<^verbatim>\<open>"Mode {mode}"\<close>), the names of all modes in factor order, and the row labels of a
  factor matrix.
\<close>

definition axis_name :: "nat \<Rightarrow> ('a, 'l) matrix \<Rightarrow> string" where
  "axis_name mode fm =
     (case fm of DataFrame a labels (Some name) \<Rightarrow> name | _ \<Rightarrow> ''Mode '' @ str mode)"

definition axis_names :: "('a, 'l) matrix list \<Rightarrow> string list" where
  "axis_names fs = map (\<lambda>(mode, fm). axis_name mode fm) (enumerate 0 fs)"

fun row_labels :: "('a, 'l) matrix \<Rightarrow> 'l list" where
  "row_labels (Array a) = []"
| "row_labels (DataFrame a labels name) = labels"

text \<open>
  A CP decomposition of rank \<open>R\<close> that \<^const>\<open>cp_to_tensor\<close> accepts: at most 26 factor
  matrices, each with \<open>R\<close> columns, and weights holding \<open>R\<close> elements (or no weights and at
  least one factor matrix, whose columns then give the rank).
\<close>

definition valid_cp :: "nat \<Rightarrow> 'a ndarray option \<times> ('a, 'l) matrix list \<Rightarrow> bool" where
  "valid_cp R cp_tensor =
     (length (snd cp_tensor) \<le> 26 \<and>
      list_all (\<lambda>fm. shape (asarray fm) = [nrows fm, R]) (snd cp_tensor) \<and>
      (case fst cp_tensor of None \<Rightarrow> snd cp_tensor \<noteq> [] | Some w \<Rightarrow> prod_list (shape w) = R))"

section \<open>Properties of \<^verbatim>\<open>extract_singleton\<close>\<close>

lemma reshape_flat: "reshape a [-1] = Inr (NDArray [prod_list (shape a)] (data a))"
  by (simp add: reshape_def)

text \<open>
  C9. On an array holding exactly one element (of any shape: a scalar, a 1-element
  vector, a 1x1 matrix) \<^verbatim>\<open>extract_singleton\<close> returns that element; on an array holding
  no element or more than one it fails.
\<close>

theorem extract_singleton_spec:
  "(data x = [v] \<longrightarrow> extract_singleton x = Inr v) \<and>
   (length (data x) \<noteq> 1 \<longrightarrow> extract_singleton x = Inl NumpyValueError)"
proof (intro conjI impI)
  assume "data x = [v]"
  then show "extract_singleton x = Inr v"
    by (simp add: extract_singleton_def reshape_flat item_scalar_def)
next
  assume "length (data x) \<noteq> 1"
  then show "extract_singleton x = Inl NumpyValueError"
    by (cases "data x" rule: list.exhaust; cases "tl (data x)")
       (auto simp: extract_singleton_def reshape_flat item_scalar_def split: list.splits)
qed

theorem extract_singleton_spec_witness:
  "extract_singleton (NDArray [1, 1] [7::int]) = Inr 7 \<and>
   extract_singleton (NDArray [] [7::int]) = Inr 7 \<and>
   extract_singleton (NDArray [2] [7, 8::int]) = Inl NumpyValueError \<and>
   extract_singleton (NDArray [0] ([]::int list)) = Inl NumpyValueError"
  using extract_singleton_spec [of "NDArray [1, 1] [7::int]" 7]
        extract_singleton_spec [of "NDArray [] [7::int]" 7]
        extract_singleton_spec [of "NDArray [2] [7, 8::int]" 0]
        extract_singleton_spec [of "NDArray [0] ([]::int list)" 0]
  by simp

section \<open>Row-major indexing\<close>

lemma length_concat_uniform:
  "\<forall>xs \<in> set xss. length xs = k \<Longrightarrow> length (concat xss) = length xss * k"
  by (induction xss) auto

lemma nth_concat_uniform:
  "\<forall>xs \<in> set xss. length xs = k \<Longrightarrow> i < length xss \<Longrightarrow> j < k \<Longrightarrow>
   concat xss ! (i * k + j) = xss ! i ! j"
proof (induction xss arbitrary: i)
  case Nil
  then show ?case by simp
next
  case (Cons xs xss)
  show ?case
  proof (cases i)
    case 0
    with Cons.prems show ?thesis by (simp add: nth_append)
  next
    case (Suc i')
    with Cons.prems have "concat xss ! (i' * k + j) = xss ! i' ! j"
      by (intro Cons.IH) auto
    moreover have "length xs = k" using Cons.prems by simp
    ultimately show ?thesis using Suc by (simp add: nth_append)
  qed
qed

lemma length_ndindex: "length (ndindex s) = prod_list s"
proof (induction s)
  case Nil
  then show ?case by simp
next
  case (Cons n ns)
  have "length (ndindex (n # ns)) = length (map (\<lambda>i. map ((#) i) (ndindex ns)) [0..<n]) * prod_list ns"
    unfolding ndindex.simps by (rule length_concat_uniform) (auto simp: Cons.IH)
  then show ?case by simp
qed

lemma ravel_less: "valid_index s idx \<Longrightarrow> ravel s idx < prod_list s"
  unfolding valid_index_def
proof (induction idx s rule: list_all2_induct)
  case Nil
  then show ?case by simp
next
  case (Cons i idx n ns)
  have "i * prod_list ns + ravel ns idx < i * prod_list ns + prod_list ns"
    using Cons.IH by simp
  also have "\<dots> = Suc i * prod_list ns" by simp
  also have "\<dots> \<le> n * prod_list ns"
    using Cons.hyps(1) by (intro mult_le_mono1) simp
  finally show ?case by simp
qed

lemma nth_ndindex_ravel: "valid_index s idx \<Longrightarrow> ndindex s ! ravel s idx = idx"
  unfolding valid_index_def
proof (induction idx s rule: list_all2_induct)
  case Nil
  then show ?case by simp
next
  case (Cons i idx n ns)
  let ?xss = "map (\<lambda>i. map ((#) i) (ndindex ns)) [0..<n]"
  have v: "valid_index ns idx" using Cons.hyps(2) by (simp add: valid_index_def)
  have "concat ?xss ! (i * prod_list ns + ravel ns idx) = ?xss ! i ! ravel ns idx"
    using Cons.hyps(1) ravel_less [OF v]
    by (intro nth_concat_uniform) (auto simp: length_ndindex)
  also have "\<dots> = i # ndindex ns ! ravel ns idx"
    using Cons.hyps(1) ravel_less [OF v] by (simp add: length_ndindex)
  finally show ?case using Cons.IH by simp
qed

lemma set_ndindex: "set (ndindex s) = {idx. valid_index s idx}"
proof (induction s)
  case Nil
  then show ?case by (auto simp: valid_index_def)
next
  case (Cons n ns)
  show ?case
  proof (intro set_eqI iffI)
    fix idx assume "idx \<in> set (ndindex (n # ns))"
    then show "idx \<in> {idx. valid_index (n # ns) idx}"
      using Cons.IH by (auto simp: valid_index_def)
  next
    fix idx assume "idx \<in> {idx. valid_index (n # ns) idx}"
    then obtain i js where "idx = i # js" "i < n" "valid_index ns js"
      by (cases idx) (auto simp: valid_index_def)
    then show "idx \<in> set (ndindex (n # ns))"
      using Cons.IH by auto
  qed
qed

lemma concat_blocks_upt:
  "concat (map (\<lambda>i. map (\<lambda>k. i * p + k) [0..<p]) [0..<n]) = [0..<n * p]"
proof (induction n)
  case 0
  then show ?case by simp
next
  case (Suc n)
  have "map (\<lambda>k. n * p + k) [0..<p] = [n * p..<n * p + p]"
    by (simp add: map_add_upt add.commute)
  moreover have "[0..<n * p + p] = [0..<n * p] @ [n * p..<n * p + p]"
    by (rule upt_add_eq_append) simp
  ultimately show ?case using Suc by (simp add: add.commute)
qed

lemma map_ravel_ndindex: "map (ravel s) (ndindex s) = [0..<prod_list s]"
proof (induction s)
  case Nil
  then show ?case by simp
next
  case (Cons n ns)
  have "map (ravel (n # ns)) (ndindex (n # ns)) =
        concat (map (\<lambda>i. map (\<lambda>js. i * prod_list ns + ravel ns js) (ndindex ns)) [0..<n])"
    by (simp add: map_concat comp_def)
  also have "\<dots> = concat (map (\<lambda>i. map (\<lambda>k. i * prod_list ns + k) (map (ravel ns) (ndindex ns))) [0..<n])"
    by (simp add: comp_def)
  also have "\<dots> = [0..<n * prod_list ns]"
    unfolding Cons.IH by (rule concat_blocks_upt)
  finally show ?case by simp
qed

lemma map_item_ndindex: "wf_array a \<Longrightarrow> map (item a) (ndindex (shape a)) = data a"
proof -
  assume wf: "wf_array a"
  have "map (item a) (ndindex (shape a)) = map ((!) (data a)) (map (ravel (shape a)) (ndindex (shape a)))"
    by (simp add: item_def comp_def)
  also have "\<dots> = map ((!) (data a)) [0..<length (data a)]"
    using wf by (simp add: map_ravel_ndindex wf_array_def)
  finally show ?thesis by (simp add: map_nth)
qed

lemma item_tabulate:
  "valid_index s idx \<Longrightarrow> item (NDArray s (map f (ndindex s))) idx = f idx"
  by (simp add: item_def ravel_less length_ndindex nth_ndindex_ravel)

section \<open>Axis orders\<close>

lemma upt_split_at: "k < n \<Longrightarrow> [0..<n] = [0..<k] @ k # [Suc k..<n]"
proof -
  assume "k < n"
  then have "[0..<n] = [0..<k] @ [k..<n]"
    using upt_add_eq_append [of 0 k "n - k"] by simp
  then show ?thesis using \<open>k < n\<close> by (simp add: upt_conv_Cons)
qed

lemma filter_neq_upt: "k < n \<Longrightarrow> filter (\<lambda>j. j \<noteq> k) [0..<n] = [0..<k] @ [Suc k..<n]"
  by (simp add: upt_split_at [of k n])

lemma map_nth_remove:
  "k < length xs \<Longrightarrow> map ((!) xs) ([0..<k] @ [Suc k..<length xs]) = remove_nth k xs"
  by (intro nth_equalityI) (auto simp: remove_nth_def nth_append min_def)

lemma lookup_zip_map: "a \<in> set ks \<Longrightarrow> lookup (zip ks (map f ks)) a = f a"
  by (induction ks) auto

lemma lookup_zip_nth:
  "distinct ks \<Longrightarrow> length ks = length vs \<Longrightarrow> j < length ks \<Longrightarrow> lookup (zip ks vs) (ks ! j) = vs ! j"
proof (induction ks vs arbitrary: j rule: list_induct2')
  case (4 k ks v vs)
  then show ?case by (cases j) auto
qed auto

section \<open>Properties of \<^verbatim>\<open>unfold_tensor\<close>\<close>

declare ndindex.simps [simp del]

lemma axis_position_less: "valid_axis t m \<Longrightarrow> axis_position t m < ndim t"
  by (auto simp: valid_axis_def axis_position_def)

lemma normalize_valid:
  "valid_axis t m \<Longrightarrow> normalize_axis_index m (ndim t) = Inr (axis_position t m)"
  by (simp add: valid_axis_def axis_position_def normalize_axis_index_def)

lemma tuple_get_valid:
  "valid_axis t m \<Longrightarrow> tuple_get (shape t) m = Inr (shape t ! axis_position t m)"
  by (auto simp: valid_axis_def axis_position_def tuple_get_def ndim_def Let_def add.commute)

lemma length_front_order: "k < n \<Longrightarrow> length (front_order k n) = n"
  by (simp add: front_order_def)

lemma moveaxis_front:
  assumes "valid_axis t m" and "k = axis_position t m"
  shows "moveaxis t m 0 = Inr (transpose_axes t (front_order k (ndim t)))"
proof -
  have k: "k < ndim t" using assms by (simp add: axis_position_less)
  then have "normalize_axis_index 0 (ndim t) = Inr 0"
    by (simp add: normalize_axis_index_def)
  then show ?thesis
    using assms k by (simp add: moveaxis_def normalize_valid filter_neq_upt front_order_def)
qed

lemma shape_front:
  "k < length s \<Longrightarrow> map ((!) s) (front_order k (length s)) = s ! k # remove_nth k s"
  using map_nth_remove [of k s] by (simp add: front_order_def)

lemma unpermute_front:
  assumes "k < length idx"
  shows "map (lookup (zip (front_order k (length idx)) (idx ! k # remove_nth k idx))) [0..<length idx] = idx"
proof -
  let ?ks = "front_order k (length idx)"
  have z: "idx ! k # remove_nth k idx = map ((!) idx) ?ks"
    using shape_front [OF assms] by simp
  have "a < length idx \<Longrightarrow> a \<in> set ?ks" for a
    using assms by (auto simp: front_order_def)
  then have "a < length idx \<Longrightarrow> lookup (zip ?ks (map ((!) idx) ?ks)) a = idx ! a" for a
    by (simp add: lookup_zip_map)
  then show ?thesis unfolding z by (intro nth_equalityI) auto
qed

lemma valid_index_front:
  assumes "valid_index s idx" and "k < length s"
  shows "valid_index (s ! k # remove_nth k s) (idx ! k # remove_nth k idx)"
proof -
  have a: "list_all2 (\<lambda>i n. i < n) idx s" using assms by (simp add: valid_index_def)
  then have "idx ! k < s ! k"
    using assms(2) by (simp add: list_all2_conv_all_nth)
  moreover have "list_all2 (\<lambda>i n. i < n) (take k idx) (take k s)"
    using a by (rule list_all2_takeI)
  moreover have "list_all2 (\<lambda>i n. i < n) (drop (Suc k) idx) (drop (Suc k) s)"
    using a by (rule list_all2_dropI)
  ultimately show ?thesis
    by (simp add: valid_index_def remove_nth_def list_all2_appendI)
qed

lemma valid_index_length: "valid_index s idx \<Longrightarrow> length idx = length s"
  by (simp add: valid_index_def list_all2_lengthD)

lemma prod_list_remove_nth:
  "k < length s \<Longrightarrow> s ! k * prod_list (remove_nth k s) = prod_list (s::nat list)"
proof -
  assume "k < length s"
  then have "s = take k s @ s ! k # drop (Suc k) s"
    by (simp add: id_take_nth_drop)
  then have "prod_list s = prod_list (take k s @ s ! k # drop (Suc k) s)" by simp
  then show ?thesis by (simp add: remove_nth_def mult.left_commute)
qed

lemma moved_front_eq:
  assumes "k < ndim t"
  shows "moved_front t k =
         NDArray (shape t ! k # remove_nth k (shape t))
           (map (\<lambda>idx. item t (map (lookup (zip (front_order k (ndim t)) idx)) [0..<ndim t]))
                (ndindex (shape t ! k # remove_nth k (shape t))))"
  using assms shape_front [of k "shape t"]
  by (simp add: moved_front_def transpose_axes_def ndim_def length_front_order Let_def)

lemma item_moved_front:
  assumes "k < ndim t" and "valid_index (shape t) idx"
  shows "item (moved_front t k) (idx ! k # remove_nth k idx) = item t idx"
proof -
  have len: "length idx = ndim t"
    using assms(2) by (simp add: valid_index_length ndim_def)
  have v: "valid_index (shape t ! k # remove_nth k (shape t)) (idx ! k # remove_nth k idx)"
    using assms by (intro valid_index_front) (simp_all add: ndim_def)
  have "map (lookup (zip (front_order k (ndim t)) (idx ! k # remove_nth k idx))) [0..<ndim t] = idx"
    using unpermute_front [of k idx] assms(1) len by simp
  then show ?thesis
    by (simp add: moved_front_eq [OF assms(1)] item_tabulate [OF v])
qed

lemma unfold_tensor_mode:
  assumes "valid_axis t m" and "k = axis_position t m" and "shape t ! k \<noteq> 0"
  shows "unfold_tensor t (Some m) None =
         Inr (NDArray [shape t ! k, prod_list (remove_nth k (shape t))] (data (moved_front t k)))"
proof -
  have k: "k < ndim t" using assms by (simp add: axis_position_less)
  have mv: "moveaxis t m 0 = Inr (moved_front t k)"
    using assms by (simp add: moveaxis_front moved_front_def)
  have sh: "shape (moved_front t k) = shape t ! k # remove_nth k (shape t)"
    by (simp add: moved_front_eq [OF k])
  have "reshape (moved_front t k) [int (shape t ! k), -1] =
        Inr (NDArray [shape t ! k, prod_list (remove_nth k (shape t))] (data (moved_front t k)))"
    using assms(3) by (simp add: reshape_def sh)
  then show ?thesis
    using assms(1,2) mv
    by (simp add: unfold_tensor_def alias_mode_axis_def unfold_tensor_body_def tuple_get_valid)
qed

lemma unfold_tensor_axis: "unfold_tensor t None (Some m) = unfold_tensor t (Some m) None"
  by (simp add: unfold_tensor_def alias_mode_axis_def unfold_tensor_body_def)

lemma item_matrix: "j < p \<Longrightarrow> item (NDArray [n, p] d) [i, j] = d ! (i * p + j)"
  by (simp add: item_def)

text \<open>
  C3, amended. For a dense tensor \<open>t\<close> and a valid axis \<open>m\<close> (at position \<open>k\<close>) whose extent
  \<open>shape t ! k\<close> is not zero, \<^verbatim>\<open>unfold_tensor\<close> returns, whether the axis is passed as
  \<^verbatim>\<open>mode\<close> or as \<^verbatim>\<open>axis\<close>, a matrix whose first extent is \<open>shape t ! k\<close> and whose second
  extent is the product of the other extents; the element of \<open>t\<close> at an index stands in
  the row given by the index along \<open>k\<close> and in the column given by the row-major offset of
  the remaining indices, in their original order.
\<close>

theorem unfold_tensor_shape_order:
  assumes "valid_axis t m" and "k = axis_position t m" and "shape t ! k \<noteq> 0"
  shows "\<exists>u. unfold_tensor t (Some m) None = Inr u \<and>
             unfold_tensor t None (Some m) = Inr u \<and>
             shape u = [shape t ! k, prod_list (remove_nth k (shape t))] \<and>
             (\<forall>idx. valid_index (shape t) idx \<longrightarrow>
                item u [idx ! k, ravel (remove_nth k (shape t)) (remove_nth k idx)] = item t idx)"
proof -
  let ?rest = "remove_nth k (shape t)"
  let ?u = "NDArray [shape t ! k, prod_list ?rest] (data (moved_front t k))"
  have k: "k < ndim t" using assms by (simp add: axis_position_less)
  have u: "unfold_tensor t (Some m) None = Inr ?u"
    using assms by (simp add: unfold_tensor_mode)
  have "item ?u [idx ! k, ravel ?rest (remove_nth k idx)] = item t idx"
    if v: "valid_index (shape t) idx" for idx
  proof -
    have "valid_index (shape t ! k # ?rest) (idx ! k # remove_nth k idx)"
      using v k by (intro valid_index_front) (simp_all add: ndim_def)
    then have "valid_index ?rest (remove_nth k idx)"
      by (simp add: valid_index_def)
    then have "ravel ?rest (remove_nth k idx) < prod_list ?rest"
      by (rule ravel_less)
    then have "item ?u [idx ! k, ravel ?rest (remove_nth k idx)] =
               item (moved_front t k) (idx ! k # remove_nth k idx)"
      by (simp add: item_matrix) (simp add: item_def moved_front_eq [OF k])
    then show ?thesis using item_moved_front [OF k v] by simp
  qed
  then show ?thesis using u by (simp add: unfold_tensor_axis)
qed

theorem unfold_tensor_shape_order_witness:
  "\<exists>u. unfold_tensor (NDArray [2, 3] [1, 2, 3, 4, 5, 6 :: int]) (Some 1) None = Inr u \<and>
       unfold_tensor (NDArray [2, 3] [1, 2, 3, 4, 5, 6 :: int]) None (Some 1) = Inr u \<and>
       shape u = [3, 2] \<and> item u [2, 1] = 6"
proof -
  let ?t = "NDArray [2, 3] [1, 2, 3, 4, 5, 6 :: int]"
  have "valid_axis ?t 1" "1 = axis_position ?t 1" "shape ?t ! 1 \<noteq> 0"
    by (simp_all add: valid_axis_def axis_position_def ndim_def)
  from unfold_tensor_shape_order [OF this] obtain u where
    u: "unfold_tensor ?t (Some 1) None = Inr u" "unfold_tensor ?t None (Some 1) = Inr u"
    "shape u = [shape ?t ! 1, prod_list (remove_nth 1 (shape ?t))]"
    "\<forall>idx. valid_index (shape ?t) idx \<longrightarrow>
       item u [idx ! 1, ravel (remove_nth 1 (shape ?t)) (remove_nth 1 idx)] = item ?t idx"
    by blast
  have "valid_index (shape ?t) [1, 2]" by (simp add: valid_index_def)
  then have "item u [[1, 2] ! 1, ravel (remove_nth 1 (shape ?t)) (remove_nth 1 [1, 2])] = item ?t [1, 2]"
    using u(4) by blast
  then have "item u [2, 1] = 6" by (simp add: remove_nth_def item_def)
  then show ?thesis using u(1,2,3) by (simp add: remove_nth_def)
qed

text \<open>
  C3 as stated fails where the extent of the chosen axis is zero: \<^verbatim>\<open>reshape(0, -1)\<close> cannot
  infer the second extent and NumPy raises \<^verbatim>\<open>ValueError\<close>, so no matrix of shape \<open>(0, 3)\<close>
  is returned.
\<close>

theorem unfold_tensor_empty_mode_counterexample:
  "unfold_tensor (NDArray [0, 3] ([] :: int list)) (Some 0) None = Inl NumpyValueError"
  by code_simp

lemma nth_back_order:
  "k < n \<Longrightarrow> j < n \<Longrightarrow>
   back_order k n ! j = (if j < k then Suc j else if j = k then 0 else j)"
  by (auto simp: back_order_def nth_append nth_Cons')

lemma length_back_order: "k < n \<Longrightarrow> length (back_order k n) = n"
  by (auto simp: back_order_def)

lemma distinct_back_order: "distinct (back_order k n)"
  by (auto simp: back_order_def)

lemma nth_front_list:
  "k < length xs \<Longrightarrow> a < length xs \<Longrightarrow>
   (xs ! k # remove_nth k xs) ! a = (if a = 0 then xs ! k else if a \<le> k then xs ! (a - 1) else xs ! a)"
  by (auto simp: remove_nth_def nth_Cons' nth_append min_def)

lemma lookup_back_order:
  assumes "k < length idx" and "a < length idx"
  shows "lookup (zip (back_order k (length idx)) idx) a = (idx ! k # remove_nth k idx) ! a"
proof -
  let ?n = "length idx"
  define j where "j = (if a = 0 then k else if a \<le> k then a - 1 else a)"
  have j: "j < ?n" using assms by (auto simp: j_def)
  have "back_order k ?n ! j = a"
    using assms j by (auto simp: nth_back_order j_def)
  moreover have "lookup (zip (back_order k ?n) idx) (back_order k ?n ! j) = idx ! j"
    using assms j by (intro lookup_zip_nth) (simp_all add: distinct_back_order length_back_order)
  moreover have "(idx ! k # remove_nth k idx) ! a = idx ! j"
    using assms by (simp add: nth_front_list j_def)
  ultimately show ?thesis by simp
qed

lemma unpermute_back:
  assumes "k < length idx"
  shows "map (lookup (zip (back_order k (length idx)) idx)) [0..<length idx] = idx ! k # remove_nth k idx"
  using assms by (intro nth_equalityI) (auto simp: lookup_back_order remove_nth_def)

lemma shape_back:
  assumes "k < length s"
  shows "map ((!) (s ! k # remove_nth k s)) (back_order k (length s)) = s"
proof (intro nth_equalityI)
  show "length (map ((!) (s ! k # remove_nth k s)) (back_order k (length s))) = length s"
    using assms by (simp add: length_back_order)
next
  fix i assume "i < length (map ((!) (s ! k # remove_nth k s)) (back_order k (length s)))"
  then have i: "i < length s" using assms by (simp add: length_back_order)
  then show "map ((!) (s ! k # remove_nth k s)) (back_order k (length s)) ! i = s ! i"
    using assms
    by (auto simp: length_back_order nth_back_order remove_nth_def nth_append min_def)
qed

lemma moveaxis_back:
  assumes "valid_axis v m" and "k = axis_position v m"
  shows "moveaxis v 0 m = Inr (transpose_axes v (back_order k (ndim v)))"
proof -
  have k: "k < ndim v" using assms by (simp add: axis_position_less)
  then have z: "normalize_axis_index 0 (ndim v) = Inr 0"
    by (simp add: normalize_axis_index_def)
  have "filter (\<lambda>n. n \<noteq> 0) [0..<ndim v] = [1..<ndim v]"
    using k filter_neq_upt [of 0 "ndim v"] by simp
  moreover have "take k [1..<ndim v] = [1..<Suc k]"
    using k by (simp add: take_upt)
  moreover have "drop k [1..<ndim v] = [Suc k..<ndim v]"
    by (simp add: drop_upt)
  ultimately show ?thesis
    using assms z by (simp add: moveaxis_def normalize_valid back_order_def)
qed

lemma reshape_explicit:
  "prod_list (shape a) = prod_list s \<Longrightarrow> reshape a (map int s) = Inr (NDArray s (data a))"
proof -
  assume p: "prod_list (shape a) = prod_list s"
  have "filter (\<lambda>d. 0 \<le> d) (map int s) = map int s" by (induction s) auto
  moreover have "filter (\<lambda>d. d < 0) (map int s) = []" by (induction s) auto
  moreover have "map nat (map int s) = s" by (simp add: comp_def)
  moreover have "map (\<lambda>d. nat (int d)) s = s" by simp
  ultimately show ?thesis using p by (simp add: reshape_def comp_def)
qed

lemma transpose_back_moved:
  assumes "wf_array t" and "k < ndim t"
  shows "transpose_axes (moved_front t k) (back_order k (ndim t)) = t"
proof -
  let ?n = "ndim t"
  let ?s = "shape t ! k # remove_nth k (shape t)"
  have sh: "shape (moved_front t k) = ?s" by (simp add: moved_front_eq [OF assms(2)])
  have ns: "map ((!) ?s) (back_order k ?n) = shape t"
    using shape_back [of k "shape t"] assms(2) by (simp add: ndim_def)
  have "item (moved_front t k) (map (lookup (zip (back_order k ?n) idx)) [0..<?n]) = item t idx"
    if "idx \<in> set (ndindex (shape t))" for idx
  proof -
    have v: "valid_index (shape t) idx" using that by (simp add: set_ndindex)
    then have len: "length idx = ?n" by (simp add: valid_index_length ndim_def)
    have "map (lookup (zip (back_order k ?n) idx)) [0..<?n] = idx ! k # remove_nth k idx"
      using unpermute_back [of k idx] assms(2) len by simp
    then show ?thesis using item_moved_front [OF assms(2) v] by simp
  qed
  then have "map (\<lambda>idx. item (moved_front t k) (map (lookup (zip (back_order k ?n) idx)) [0..<?n]))
               (ndindex (shape t)) = map (item t) (ndindex (shape t))"
    by (intro map_cong) simp_all
  then have "transpose_axes (moved_front t k) (back_order k ?n) = NDArray (shape t) (data t)"
    using assms by (simp add: transpose_axes_def sh ns length_back_order map_item_ndindex Let_def)
  then show ?thesis by simp
qed

text \<open>
  C4, amended. For a well-formed dense tensor \<open>t\<close> and a valid axis \<open>m\<close> whose extent is not
  zero, unfolding along \<open>m\<close>, reshaping to the shape with axis \<open>m\<close> in front and moving
  axis 0 back to position \<open>m\<close> gives \<open>t\<close> again.
\<close>

theorem unfold_round_trip:
  assumes "wf_array t" and "valid_axis t m" and "shape t ! axis_position t m \<noteq> 0"
  shows "round_trip t m = Inr t"
proof -
  define k where "k = axis_position t m"
  let ?rest = "remove_nth k (shape t)"
  let ?u = "NDArray [shape t ! k, prod_list ?rest] (data (moved_front t k))"
  have k: "k < ndim t" using assms by (simp add: axis_position_less k_def)
  have u: "unfold_tensor t (Some m) None = Inr ?u"
    using assms by (simp add: unfold_tensor_mode k_def)
  have mf: "NDArray (shape t ! k # ?rest) (data (moved_front t k)) = moved_front t k"
    by (simp add: moved_front_eq [OF k])
  have "reshape ?u (map int (shape t ! k # ?rest)) = Inr (NDArray (shape t ! k # ?rest) (data ?u))"
    by (rule reshape_explicit) simp
  then have r: "reshape ?u (map int (shape t ! k # ?rest)) = Inr (moved_front t k)"
    using mf by simp
  have nd: "ndim (moved_front t k) = ndim t"
    using k by (simp add: moved_front_eq [OF k] ndim_def remove_nth_def)
  have kk: "k = nat (if m < 0 then m + int (ndim t) else m)"
    by (simp add: k_def axis_position_def)
  have va: "valid_axis (moved_front t k) m" "k = axis_position (moved_front t k) m"
    using assms(2) kk unfolding valid_axis_def axis_position_def nd by simp_all
  have "moveaxis (moved_front t k) 0 m = Inr (transpose_axes (moved_front t k) (back_order k (ndim t)))"
    using moveaxis_back [OF va] nd by simp
  then have "moveaxis (moved_front t k) 0 m = Inr t"
    using transpose_back_moved [OF assms(1) k] by simp
  then have "fold_back ?u (shape t) m = Inr t"
    using r normalize_valid [OF assms(2)] by (simp add: fold_back_def k_def ndim_def)
  then show ?thesis using u by (simp add: round_trip_def)
qed

theorem unfold_round_trip_witness:
  "round_trip (NDArray [2, 3] [1, 2, 3, 4, 5, 6 :: int]) 1 = Inr (NDArray [2, 3] [1, 2, 3, 4, 5, 6])"
  using unfold_round_trip [of "NDArray [2, 3] [1, 2, 3, 4, 5, 6 :: int]" 1]
  by (simp add: wf_array_def valid_axis_def axis_position_def ndim_def)

text \<open>
  C4 as stated fails where the extent of the chosen axis is zero: the unfolding itself
  raises, so the round trip returns no tensor.
\<close>

theorem unfold_round_trip_counterexample:
  "round_trip (NDArray [2, 0] ([] :: int list)) 1 = Inl NumpyValueError"
  by code_simp

text \<open>
  C8, amended. \<^verbatim>\<open>unfold_tensor\<close> fails with the configuration error (\<^verbatim>\<open>TypeError\<close>) exactly
  when neither \<^verbatim>\<open>mode\<close> nor \<^verbatim>\<open>axis\<close> is supplied, or when both are supplied, whatever their
  values; with exactly one of them supplied it never does.
\<close>

theorem unfold_tensor_config_error:
  "unfold_tensor t mode axis = Inl TypeError \<longleftrightarrow>
     (mode = None \<and> axis = None) \<or> (mode \<noteq> None \<and> axis \<noteq> None)"
proof -
  have nt: "reshape a s \<noteq> Inl TypeError" for a :: "'a ndarray" and s
    by (simp add: reshape_def Let_def)
  have mt: "moveaxis a i j \<noteq> Inl TypeError" for a :: "'a ndarray" and i j
    by (auto simp: moveaxis_def normalize_axis_index_def Let_def split: sum.splits if_splits)
  have tt: "tuple_get s i \<noteq> Inl TypeError" for s :: "nat list" and i
    by (simp add: tuple_get_def Let_def)
  have body: "unfold_tensor_body t (Some m) ax \<noteq> Inl TypeError" for m ax
    using nt mt tt by (auto simp: unfold_tensor_body_def split: sum.splits)
  show ?thesis
    using body by (cases mode; cases axis) (auto simp: unfold_tensor_def alias_mode_axis_def)
qed

theorem unfold_tensor_config_error_witness:
  "unfold_tensor (NDArray [2, 3] [1, 2, 3, 4, 5, 6 :: int]) None None = Inl TypeError \<and>
   unfold_tensor (NDArray [2, 3] [1, 2, 3, 4, 5, 6 :: int]) (Some 0) (Some 1) = Inl TypeError \<and>
   unfold_tensor (NDArray [2, 3] [1, 2, 3, 4, 5, 6 :: int]) (Some 0) None \<noteq> Inl TypeError \<and>
   unfold_tensor (NDArray [2, 3] [1, 2, 3, 4, 5, 6 :: int]) None (Some 1) \<noteq> Inl TypeError"
  using unfold_tensor_config_error [of "NDArray [2, 3] [1, 2, 3, 4, 5, 6 :: int]" None None]
        unfold_tensor_config_error [of "NDArray [2, 3] [1, 2, 3, 4, 5, 6 :: int]" "Some 0" "Some 1"]
        unfold_tensor_config_error [of "NDArray [2, 3] [1, 2, 3, 4, 5, 6 :: int]" "Some 0" None]
        unfold_tensor_config_error [of "NDArray [2, 3] [1, 2, 3, 4, 5, 6 :: int]" None "Some 1"]
  by simp

text \<open>
  C8 as stated fails: with \<^verbatim>\<open>mode\<close> and \<^verbatim>\<open>axis\<close> both supplied and equal, the decorator still
  raises ("Either mode or axis can be specified, not both").
\<close>

theorem unfold_tensor_same_value_counterexample:
  "unfold_tensor (NDArray [2, 3] [1, 2, 3, 4, 5, 6 :: int]) (Some 1) (Some 1) = Inl TypeError"
  by (simp add: unfold_tensor_def alias_mode_axis_def)

section \<open>The subscripts built by the label loops\<close>

lemma ord_chr: "n < 256 \<Longrightarrow> ord (chr n) = n"
  by (simp add: ord_def chr_def)

lemma ord_a: "ord CHR ''a'' = 97" and ord_z: "ord CHR ''z'' = 122" and ord_A: "ord CHR ''A'' = 65"
  by (simp_all add: ord_def)

lemma ord_mode_label: "m < 159 \<Longrightarrow> ord (mode_label m) = 97 + m"
  by (simp add: mode_label_def ord_a ord_chr)

lemma ord_rank_label: "m < 191 \<Longrightarrow> ord (rank_label m) = 65 + m"
  by (simp add: rank_label_def ord_A ord_chr)

lemma ord_inject: "ord c = ord d \<Longrightarrow> c = d"
  by (simp add: ord_def)

lemma mode_label_inj:
  assumes "m < 26" and "m' < 26" and "mode_label m = mode_label m'"
  shows "m = m'"
proof -
  have a: "ord (mode_label m) = 97 + m" and b: "ord (mode_label m') = 97 + m'"
    using assms(1,2) by (simp_all add: ord_mode_label)
  have "ord (mode_label m) = ord (mode_label m')"
    using assms(3) by (rule arg_cong)
  then have "97 + m = 97 + m'" unfolding a b .
  then show ?thesis by simp
qed

lemma rank_label_inj:
  assumes "m < 26" and "m' < 26" and "rank_label m = rank_label m'"
  shows "m = m'"
proof -
  have a: "ord (rank_label m) = 65 + m" and b: "ord (rank_label m') = 65 + m'"
    using assms(1,2) by (simp_all add: ord_rank_label)
  have "ord (rank_label m) = ord (rank_label m')"
    using assms(3) by (rule arg_cong)
  then have "65 + m = 65 + m'" unfolding a b .
  then show ?thesis by simp
qed

lemma mode_neq_rank:
  assumes "m < 26" and "m' < 26"
  shows "mode_label m \<noteq> rank_label m'"
proof
  assume e: "mode_label m = rank_label m'"
  have a: "ord (mode_label m) = 97 + m" and b: "ord (rank_label m') = 65 + m'"
    using assms by (simp_all add: ord_mode_label ord_rank_label)
  have "ord (mode_label m) = ord (rank_label m')"
    using e by (rule arg_cong)
  then have "97 + m = 65 + m'" unfolding a b .
  then show False using assms by simp
qed

lemma mode_label_not:
  assumes "m < 26"
  shows "mode_label m \<noteq> CHR ''R''" "mode_label m \<noteq> CHR '' ''" "mode_label m \<noteq> CHR '',''"
        "mode_label m \<noteq> CHR ''-''" "mode_label m \<noteq> CHR ''.''"
proof -
  have "of_char (mode_label m) = 97 + m"
    using assms ord_mode_label [of m] by (simp add: ord_def)
  then show "mode_label m \<noteq> CHR ''R''" "mode_label m \<noteq> CHR '' ''" "mode_label m \<noteq> CHR '',''"
        "mode_label m \<noteq> CHR ''-''" "mode_label m \<noteq> CHR ''.''"
    using assms by auto
qed

lemma rank_label_not:
  assumes "m < 26"
  shows "rank_label m \<noteq> CHR '' ''" "rank_label m \<noteq> CHR '',''"
        "rank_label m \<noteq> CHR ''-''" "rank_label m \<noteq> CHR ''.''"
proof -
  have "of_char (rank_label m) = 65 + m"
    using assms ord_rank_label [of m] by (simp add: ord_def)
  then show "rank_label m \<noteq> CHR '' ''" "rank_label m \<noteq> CHR '',''"
        "rank_label m \<noteq> CHR ''-''" "rank_label m \<noteq> CHR ''.''"
    using assms by auto
qed

lemma isalpha_mode_label: "m < 26 \<Longrightarrow> isalpha (mode_label m)"
  using ord_mode_label [of m] by (simp add: isalpha_def ord_def Let_def)

lemma isalpha_rank_label: "m < 26 \<Longrightarrow> isalpha (rank_label m)"
  using ord_rank_label [of m] by (simp add: isalpha_def ord_def Let_def)

lemma isalpha_not:
  "\<not> isalpha CHR '' ''" "\<not> isalpha CHR '',''" "\<not> isalpha CHR ''-''" "\<not> isalpha CHR ''.''"
  by (simp_all add: isalpha_def Let_def)

lemma isalpha_R: "isalpha CHR ''R''"
  by (simp add: isalpha_def Let_def)

lemma strip_blanks_alpha: "list_all isalpha s \<Longrightarrow> strip_blanks s = s"
  by (induction s) (auto simp: strip_blanks_def isalpha_not)

lemma split_on_no_sep: "sep \<notin> set xs \<Longrightarrow> split_on sep xs = [xs]"
  by (induction xs) auto

lemma split_on_sep: "sep \<notin> set p \<Longrightarrow> split_on sep (p @ sep # rest) = p # split_on sep rest"
  by (induction p) auto

lemma split_arrow_append:
  "CHR ''-'' \<notin> set xs \<Longrightarrow> split_arrow (xs @ ''->'' @ ys) = Inr (xs, ys)"
  by (induction xs) auto

lemma split_groups:
  assumes "CHR '','' \<notin> set p" and "\<forall>m \<in> set ms. list_all isalpha (g m)"
  shows "map strip_blanks (split_on CHR '','' (p @ concat (map (\<lambda>m. '', '' @ g m) ms) @ '' ''))
         = strip_blanks p # map g ms"
  using assms
proof (induction ms arbitrary: p)
  case Nil
  then show ?case by (simp add: split_on_no_sep strip_blanks_def)
next
  case (Cons m ms)
  have g: "list_all isalpha (g m)" using Cons.prems(2) by simp
  then have nc: "CHR '','' \<notin> set (CHR '' '' # g m)"
    by (auto simp: list_all_iff isalpha_not)
  have eq: "p @ concat (map (\<lambda>m. '', '' @ g m) (m # ms)) @ '' ''
        = p @ CHR '','' # ((CHR '' '' # g m) @ concat (map (\<lambda>m. '', '' @ g m) ms) @ '' '')"
    by simp
  have "map strip_blanks (split_on CHR '','' (p @ concat (map (\<lambda>m. '', '' @ g m) (m # ms)) @ '' ''))
        = strip_blanks p #
          map strip_blanks (split_on CHR '','' ((CHR '' '' # g m) @ concat (map (\<lambda>m. '', '' @ g m) ms) @ '' ''))"
    by (subst eq) (simp only: split_on_sep [OF Cons.prems(1)] list.map)
  also have "\<dots> = strip_blanks p # strip_blanks (CHR '' '' # g m) # map g ms"
    using Cons.IH [OF nc] Cons.prems(2) by simp
  also have "strip_blanks (CHR '' '' # g m) = g m"
    using strip_blanks_alpha [OF g] by (simp add: strip_blanks_def)
  finally show ?case by simp
qed

lemma parse_generated:
  assumes "list_all isalpha p" and "\<forall>m \<in> set ms. list_all isalpha (g m)"
    and "list_all isalpha out"
  shows "parse_subscripts (p @ concat (map (\<lambda>m. '', '' @ g m) ms) @ '' -> '' @ out)
         = Inr (p # map g ms, out)"
proof -
  let ?lhs = "p @ concat (map (\<lambda>m. '', '' @ g m) ms) @ '' ''"
  have alpha_groups: "list_all isalpha (concat (map g ms))"
    using assms(2) by (induction ms) auto
  have "CHR ''-'' \<notin> set (concat (map (\<lambda>m. '', '' @ g m) ms))"
    using assms(2) by (induction ms) (auto simp: list_all_iff isalpha_not)
  then have "CHR ''-'' \<notin> set ?lhs"
    using assms(1) by (auto simp: list_all_iff isalpha_not)
  then have "split_arrow (?lhs @ ''->'' @ (CHR '' '' # out)) = Inr (?lhs, CHR '' '' # out)"
    by (rule split_arrow_append)
  then have sa: "split_arrow (p @ concat (map (\<lambda>m. '', '' @ g m) ms) @ '' -> '' @ out)
                 = Inr (?lhs, CHR '' '' # out)"
    by simp
  have "CHR '','' \<notin> set p" using assms(1) by (auto simp: list_all_iff isalpha_not)
  then have ins: "map strip_blanks (split_on CHR '','' ?lhs) = p # map g ms"
    using split_groups [of p ms g] assms(1,2) by (simp add: strip_blanks_alpha)
  have out: "strip_blanks (CHR '' '' # out) = out"
    using strip_blanks_alpha [OF assms(3)] by (simp add: strip_blanks_def)
  have all: "list_all isalpha (concat (p # map g ms) @ out)"
    using assms(1,3) alpha_groups by simp
  have nodot: "CHR ''.'' \<notin> set (concat (p # map g ms) @ out)"
  proof
    assume "CHR ''.'' \<in> set (concat (p # map g ms) @ out)"
    with all have "isalpha CHR ''.''" unfolding list_all_iff by blast
    then show False by (simp add: isalpha_not)
  qed
  show ?thesis
    unfolding parse_subscripts_def sa
    using all nodot by (simp only: sum.case prod.case ins out Let_def if_False not_True_eq_False not_not if_True)
qed

lemma cp_subscripts_ok:
  "\<forall>m \<in> set ms. m < 26 \<Longrightarrow>
   cp_subscripts ms (inp, out) =
     Inr (inp @ concat (map (\<lambda>m. '', '' @ [mode_label m, CHR ''R'']) ms), out @ map mode_label ms)"
proof (induction ms arbitrary: inp out)
  case Nil
  then show ?case by simp
next
  case (Cons m ms)
  then have "m < 26" by simp
  then have "\<not> ord (mode_label m) > ord CHR ''z''"
    by (simp add: ord_mode_label ord_z)
  then show ?case using Cons by (simp add: mode_label_def [symmetric] Let_def)
qed

lemma cp_subscripts_fail: "26 \<in> set ms \<Longrightarrow> cp_subscripts ms acc = Inl ModesValueError"
proof (induction ms arbitrary: acc)
  case Nil
  then show ?case by simp
next
  case (Cons m ms)
  obtain inp out where acc: "acc = (inp, out)" by (cases acc)
  show ?case
  proof (cases "m = 26")
    case True
    have "ord (mode_label 26) > ord CHR ''z''"
      by (simp add: ord_mode_label ord_z)
    then show ?thesis using True acc by (simp add: mode_label_def [symmetric] Let_def)
  next
    case False
    then have "26 \<in> set ms" using Cons.prems by simp
    then show ?thesis using Cons.IH acc by (simp add: Let_def)
  qed
qed

lemma tucker_subscripts_ok:
  "\<forall>m \<in> set ms. m < 26 \<Longrightarrow>
   tucker_subscripts ms (core, inp, out) =
     Inr (core @ map rank_label ms,
          inp @ concat (map (\<lambda>m. '', '' @ [mode_label m, rank_label m]) ms),
          out @ map mode_label ms)"
proof (induction ms arbitrary: core inp out)
  case Nil
  then show ?case by simp
next
  case (Cons m ms)
  then have "m < 26" by simp
  then have "\<not> ord (mode_label m) > ord CHR ''z''"
    by (simp add: ord_mode_label ord_z)
  then show ?case using Cons
    by (simp add: mode_label_def [symmetric] rank_label_def [symmetric] Let_def)
qed

lemma tucker_subscripts_fail: "26 \<in> set ms \<Longrightarrow> tucker_subscripts ms acc = Inl ModesValueError"
proof (induction ms arbitrary: acc)
  case Nil
  then show ?case by simp
next
  case (Cons m ms)
  obtain core inp out where acc: "acc = (core, inp, out)" by (cases acc)
  show ?case
  proof (cases "m = 26")
    case True
    have "ord (mode_label 26) > ord CHR ''z''"
      by (simp add: ord_mode_label ord_z)
    then show ?thesis using True acc by (simp add: mode_label_def [symmetric] Let_def)
  next
    case False
    then have "26 \<in> set ms" using Cons.prems by simp
    then show ?thesis using Cons.IH acc by (simp add: Let_def)
  qed
qed

section \<open>The contractions\<close>

lemma map2_same:
  "map2 h (map f xs) (map g xs) = map (\<lambda>x. h (f x) (g x)) xs"
  by (induction xs) auto

lemma list_all2_same:
  "list_all2 P (map f xs) (map g xs) = (\<forall>x \<in> set xs. P (f x) (g x))"
  by (induction xs) auto

lemma lookup_append_in: "k \<in> fst ` set xs \<Longrightarrow> lookup (xs @ ys) k = lookup xs k"
  by (induction xs) force+

lemma lookup_append_notin: "k \<notin> fst ` set xs \<Longrightarrow> lookup (xs @ ys) k = lookup ys k"
  by (induction xs) auto

lemma lookup_pairs:
  assumes "m \<in> set ms" and "inj_on c (set ms)" and "\<forall>k \<in> set ms. d k \<noteq> c m"
  shows "lookup (concat (map (\<lambda>k. [(c k, n k), (d k, v k)]) ms)) (c m) = n m"
  using assms
proof (induction ms)
  case Nil
  then show ?case by simp
next
  case (Cons k ms)
  show ?case
  proof (cases "k = m")
    case True
    then show ?thesis by simp
  next
    case False
    then have "m \<in> set ms" using Cons.prems(1) by simp
    moreover have "inj_on c (set ms)" using Cons.prems(2) by (simp add: inj_on_def)
    moreover have "\<forall>k \<in> set ms. d k \<noteq> c m" using Cons.prems(3) by simp
    ultimately have "lookup (concat (map (\<lambda>k. [(c k, n k), (d k, v k)]) ms)) (c m) = n m"
      by (rule Cons.IH)
    moreover have "c k \<noteq> c m"
      using Cons.prems(1,2) False by (auto simp: inj_on_def)
    moreover have "d k \<noteq> c m" using Cons.prems(3) by simp
    ultimately show ?thesis by simp
  qed
qed

lemma lookup_pairs_snd:
  assumes "m \<in> set ms" and "inj_on d (set ms)" and "\<forall>k \<in> set ms. c k \<noteq> d m"
  shows "lookup (concat (map (\<lambda>k. [(c k, n k), (d k, v k)]) ms)) (d m) = v m"
  using assms
proof (induction ms)
  case Nil
  then show ?case by simp
next
  case (Cons k ms)
  show ?case
  proof (cases "k = m")
    case True
    then show ?thesis using Cons.prems(3) by simp
  next
    case False
    then have "m \<in> set ms" using Cons.prems(1) by simp
    moreover have "inj_on d (set ms)" using Cons.prems(2) by (simp add: inj_on_def)
    moreover have "\<forall>k \<in> set ms. c k \<noteq> d m" using Cons.prems(3) by simp
    ultimately have "lookup (concat (map (\<lambda>k. [(c k, n k), (d k, v k)]) ms)) (d m) = v m"
      by (rule Cons.IH)
    moreover have "d k \<noteq> d m"
      using Cons.prems(1,2) False by (auto simp: inj_on_def)
    moreover have "c k \<noteq> d m" using Cons.prems(3) by simp
    ultimately show ?thesis by simp
  qed
qed

lemma filter_pairs_keep_snd:
  "\<forall>m \<in> set ms. c m \<in> S \<and> d m \<notin> S \<Longrightarrow>
   filter (\<lambda>l. l \<notin> S) (concat (map (\<lambda>m. [c m, d m]) ms)) = map d ms"
  by (induction ms) auto

lemma remdups_absorb: "set ys \<subseteq> set xs \<Longrightarrow> remdups (ys @ xs) = remdups xs"
  by (induction ys) auto

lemma ndindex_one: "ndindex [n] = map (\<lambda>r. [r]) [0..<n]"
  by (simp add: ndindex.simps comp_def)

lemma lookup_zip_map_nth:
  assumes "inj_on c {..<n}" and "length vs = n" and "m < n"
  shows "lookup (zip (map c [0..<n]) vs @ rest) (c m) = vs ! m"
proof -
  have d: "distinct (map c [0..<n])"
    using assms(1) by (simp add: distinct_map lessThan_atLeast0)
  have "lookup (zip (map c [0..<n]) vs) (map c [0..<n] ! m) = vs ! m"
    using d assms(2,3) by (intro lookup_zip_nth) simp_all
  moreover have "c m \<in> fst ` set (zip (map c [0..<n]) vs)"
  proof -
    have "(c m, vs ! m) \<in> set (zip (map c [0..<n]) vs)"
      using assms(2,3) by (auto simp: set_zip intro!: exI [of _ m])
    then show ?thesis by force
  qed
  ultimately show ?thesis using assms(3) by (simp add: lookup_append_in)
qed

lemma lookup_zip_skip:
  assumes "k \<notin> set ks"
  shows "lookup (zip ks vs @ rest) k = lookup rest k"
proof -
  have "k \<notin> fst ` set (zip ks vs)"
    using assms by (auto dest: set_zip_leftD)
  then show ?thesis by (rule lookup_append_notin)
qed

lemma inj_on_mode_label:
  assumes "n \<le> 26"
  shows "inj_on mode_label {..<n}"
proof (rule inj_onI)
  fix x y assume "x \<in> {..<n}" "y \<in> {..<n}" "mode_label x = mode_label y"
  then show "x = y" using assms by (intro mode_label_inj) simp_all
qed

lemma inj_on_rank_label:
  assumes "n \<le> 26"
  shows "inj_on rank_label {..<n}"
proof (rule inj_onI)
  fix x y assume "x \<in> {..<n}" "y \<in> {..<n}" "rank_label x = rank_label y"
  then show "x = y" using assms by (intro rank_label_inj) simp_all
qed

lemma contract_ok:
  assumes "length ins = length ops"
    and "list_all2 (\<lambda>ls a. length ls = ndim a) ins ops"
    and "concat (map2 (\<lambda>ls a. zip ls (shape a)) ins ops) = E"
    and "list_all (\<lambda>(l, n). lookup E l = n) E"
    and "distinct out" and "set out \<subseteq> set (concat ins)"
    and "remdups (filter (\<lambda>l. l \<notin> set out) (concat ins)) = summed"
  shows "contract ins out ops =
         Inr (NDArray (map (lookup E) out)
               (map (\<lambda>oi. sum_list (map (\<lambda>si. prod_list
                         (map2 (\<lambda>ls a. item a (map (lookup (zip (out @ summed) (oi @ si))) ls)) ins ops))
                       (ndindex (map (lookup E) summed))))
                    (ndindex (map (lookup E) out))))"
  using assms by (simp add: contract_def Let_def)

lemma remdups_const: "remdups (r # map (\<lambda>_. r) xs) = [r]"
  by (induction xs) auto

lemma ndindex_length: "oi \<in> set (ndindex s) \<Longrightarrow> length oi = length s"
  by (simp add: set_ndindex valid_index_length)

lemma contract_cp:
  fixes w :: "'a::comm_semiring_1 ndarray" and A :: "nat \<Rightarrow> 'a ndarray"
  assumes M: "M \<le> 26" and w: "shape w = [R]" and A: "\<forall>m<M. shape (A m) = [n m, R]"
  shows "contract (''R'' # map (\<lambda>m. [mode_label m, CHR ''R'']) [0..<M]) (map mode_label [0..<M])
                  (w # map A [0..<M]) =
         Inr (NDArray (map n [0..<M])
               (map (\<lambda>oi. sum_list (map (\<lambda>r. item w [r] *
                                prod_list (map (\<lambda>m. item (A m) [oi ! m, r]) [0..<M])) [0..<R]))
                    (ndindex (map n [0..<M]))))"
proof -
  let ?c = mode_label
  let ?r = "CHR ''R''"
  let ?ms = "[0..<M]"
  let ?ins = "''R'' # map (\<lambda>m. [?c m, ?r]) ?ms"
  let ?out = "map ?c ?ms"
  let ?ops = "w # map A ?ms"
  let ?E = "(?r, R) # concat (map (\<lambda>m. [(?c m, n m), (?r, R)]) ?ms)"
  have lt: "m < 26" if "m < M" for m using that M by simp
  have inj: "inj_on ?c {..<M}" using M by (rule inj_on_mode_label)
  have inj': "inj_on ?c (set ?ms)" using inj by (simp add: lessThan_atLeast0)
  have cR: "?c m \<noteq> ?r" if "m < M" for m using lt [OF that] by (rule mode_label_not)
  have Rout: "?r \<notin> set ?out"
  proof
    assume "?r \<in> set ?out"
    then obtain m where "m < M" "?c m = ?r" by auto
    then show False using cR by blast
  qed
  have len: "length ?ins = length ?ops" by simp
  have dims: "list_all2 (\<lambda>ls a. length ls = ndim a) ?ins ?ops"
    using w A by (simp add: list_all2_same ndim_def)
  have me: "map (\<lambda>m. zip [?c m, ?r] (shape (A m))) ?ms = map (\<lambda>m. [(?c m, n m), (?r, R)]) ?ms"
    using A by (intro map_cong) simp_all
  have ext: "concat (map2 (\<lambda>ls a. zip ls (shape a)) ?ins ?ops) = ?E"
    by (simp add: map2_same me w)
  have lkc: "lookup ?E (?c m) = n m" if "m < M" for m
  proof -
    have "m \<in> set ?ms" using that by simp
    moreover have "\<forall>k \<in> set ?ms. ?r \<noteq> ?c m"
      using not_sym [OF cR [OF that]] by (intro ballI)
    ultimately have "lookup (concat (map (\<lambda>k. [(?c k, n k), (?r, R)]) ?ms)) (?c m) = n m"
      using inj' by (intro lookup_pairs)
    then show ?thesis using cR [OF that] by simp
  qed
  have cons: "list_all (\<lambda>(l, x). lookup ?E l = x) ?E"
    unfolding list_all_iff using lkc by auto
  have dist: "distinct ?out" using inj' by (simp add: distinct_map)
  have sub: "set ?out \<subseteq> set (concat ?ins)" by auto
  have "filter (\<lambda>l. l \<notin> set ?out) (concat (map (\<lambda>m. [?c m, ?r]) ?ms)) = map (\<lambda>_. ?r) ?ms"
    using Rout by (intro filter_pairs_keep_snd) auto
  then have "filter (\<lambda>l. l \<notin> set ?out) (concat ?ins) = ?r # map (\<lambda>_. ?r) ?ms"
    using Rout by (simp del: set_map set_upt)
  then have summed: "remdups (filter (\<lambda>l. l \<notin> set ?out) (concat ?ins)) = [?r]"
    by (simp only: remdups_const)
  have sh: "map (lookup ?E) ?out = map n ?ms"
    using lkc by (simp add: comp_def)
  have shR: "map (lookup ?E) [?r] = [R]" by simp
  have tm: "sum_list (map (\<lambda>si. prod_list
                 (map2 (\<lambda>ls a. item a (map (lookup (zip (?out @ [?r]) (oi @ si))) ls)) ?ins ?ops))
               (ndindex [R]))
              = sum_list (map (\<lambda>r. item w [r] * prod_list (map (\<lambda>m. item (A m) [oi ! m, r]) ?ms)) [0..<R])"
    if oi: "oi \<in> set (ndindex (map n ?ms))" for oi
  proof -
    have lo: "length oi = M" using ndindex_length [OF oi] by simp
    have env: "zip (?out @ [?r]) (oi @ [r]) = zip ?out oi @ [(?r, r)]" for r
      using lo by simp
    have eR: "lookup (zip ?out oi @ [(?r, r)]) ?r = r" for r
      using Rout by (simp add: lookup_zip_skip del: set_map set_upt)
    have ec: "lookup (zip ?out oi @ [(?r, r)]) (?c m) = oi ! m" if "m < M" for m r
      using inj lo that by (rule lookup_zip_map_nth)
    have "prod_list (map2 (\<lambda>ls a. item a (map (lookup (zip (?out @ [?r]) (oi @ [r]))) ls)) ?ins ?ops)
          = item w [r] * prod_list (map (\<lambda>m. item (A m) [oi ! m, r]) ?ms)" for r
    proof -
      have "map (\<lambda>m. item (A m) [lookup (zip ?out oi @ [(?r, r)]) (?c m), r]) ?ms
            = map (\<lambda>m. item (A m) [oi ! m, r]) ?ms"
        by (rule map_cong [OF refl]) (simp add: ec)
      then have "prod_list (map (\<lambda>m. item (A m) [lookup (zip ?out oi @ [(?r, r)]) (?c m), r]) ?ms)
            = prod_list (map (\<lambda>m. item (A m) [oi ! m, r]) ?ms)"
        by (rule arg_cong)
      then show ?thesis
        unfolding env by (simp add: map2_same eR)
    qed
    then show ?thesis by (simp add: ndindex_one comp_def)
  qed
  have "contract ?ins ?out ?ops =
         Inr (NDArray (map (lookup ?E) ?out)
               (map (\<lambda>oi. sum_list (map (\<lambda>si. prod_list
                         (map2 (\<lambda>ls a. item a (map (lookup (zip (?out @ [?r]) (oi @ si))) ls)) ?ins ?ops))
                       (ndindex (map (lookup ?E) [?r]))))
                    (ndindex (map (lookup ?E) ?out))))"
    using len dims ext cons dist sub summed by (rule contract_ok)
  also have "\<dots> = Inr (NDArray (map n ?ms)
               (map (\<lambda>oi. sum_list (map (\<lambda>si. prod_list
                         (map2 (\<lambda>ls a. item a (map (lookup (zip (?out @ [?r]) (oi @ si))) ls)) ?ins ?ops))
                       (ndindex [R])))
                    (ndindex (map n ?ms))))"
    unfolding sh shR ..
  also have "\<dots> = Inr (NDArray (map n ?ms)
               (map (\<lambda>oi. sum_list (map (\<lambda>r. item w [r] *
                                prod_list (map (\<lambda>m. item (A m) [oi ! m, r]) ?ms)) [0..<R]))
                    (ndindex (map n ?ms))))"
    using tm by (simp only: sum.inject ndarray.inject simp_thms cong: map_cong)
  finally show ?thesis .
qed

section \<open>The reconstructions\<close>

lemma sum_list_upt: "sum_list (map f [0..<n]) = (\<Sum>r<n. f r)"
  by (simp add: interv_sum_list_conv_sum_set_nat lessThan_atLeast0)

lemma prod_list_upt: "prod_list (map f [0..<n]) = (\<Prod>m<n. f m :: 'a::comm_semiring_1)"
  using prod.distinct_set_conv_list [of "[0..<n]" f] by (simp add: lessThan_atLeast0)

lemma item_vector: "item (NDArray [n] d) [r] = d ! r"
  by (simp add: item_def)

lemma cp_subscripts_modes:
  assumes "M \<le> 26"
  shows "cp_subscripts [0..<M] (''R'', '''') =
         Inr (''R'' @ concat (map (\<lambda>m. '', '' @ [mode_label m, CHR ''R'']) [0..<M]), map mode_label [0..<M])"
  using assms cp_subscripts_ok [of "[0..<M]" "''R''" "''''"] by simp

lemma einsum_cp:
  fixes w :: "'a::comm_semiring_1 ndarray"
  assumes "M \<le> 26"
  shows "einsum ((''R'' @ concat (map (\<lambda>m. '', '' @ [mode_label m, CHR ''R'']) [0..<M])) @ '' -> '' @
                  map mode_label [0..<M]) ops =
         contract (''R'' # map (\<lambda>m. [mode_label m, CHR ''R'']) [0..<M]) (map mode_label [0..<M]) ops"
proof -
  have a: "list_all isalpha ''R''" by (simp add: isalpha_R)
  have b: "\<forall>m \<in> set [0..<M]. list_all isalpha [mode_label m, CHR ''R'']"
    using assms by (simp add: isalpha_R isalpha_mode_label)
  have c: "list_all isalpha (map mode_label [0..<M])"
    using assms by (simp add: list_all_iff isalpha_mode_label)
  have "parse_subscripts (''R'' @ concat (map (\<lambda>m. '', '' @ [mode_label m, CHR ''R'']) [0..<M]) @ '' -> '' @
                  map mode_label [0..<M]) =
        Inr (''R'' # map (\<lambda>m. [mode_label m, CHR ''R'']) [0..<M], map mode_label [0..<M])"
    using a b c by (rule parse_generated)
  then show ?thesis by (simp add: einsum_def)
qed

lemma cp_dense_weights:
  fixes w :: "'a::comm_semiring_1 ndarray" and fs :: "('a, 'l) matrix list"
  assumes M: "length fs \<le> 26" and R: "prod_list (shape w) = R"
    and A: "\<forall>fm \<in> set fs. shape (asarray fm) = [nrows fm, R]"
  shows "cp_dense (Some w, fs) =
         Inr (NDArray (map nrows fs)
               (map (\<lambda>oi. \<Sum>r<R. data w ! r * (\<Prod>m<length fs. item (asarray (fs ! m)) [oi ! m, r]))
                    (ndindex (map nrows fs))))"
proof -
  let ?M = "length fs"
  let ?w = "NDArray [R] (data w)"
  let ?A = "\<lambda>m. asarray (fs ! m)"
  have ops: "map asarray fs = map ?A [0..<?M]"
    by (intro nth_equalityI) simp_all
  have rows: "map nrows fs = map (\<lambda>m. nrows (fs ! m)) [0..<?M]"
    by (intro nth_equalityI) simp_all
  have wts: "cp_weights (Some w, fs) = Inr ?w"
    using R by (simp add: cp_weights_def reshape_flat)
  have "contract (''R'' # map (\<lambda>m. [mode_label m, CHR ''R'']) [0..<?M]) (map mode_label [0..<?M])
                 (?w # map ?A [0..<?M]) =
        Inr (NDArray (map (\<lambda>m. nrows (fs ! m)) [0..<?M])
              (map (\<lambda>oi. sum_list (map (\<lambda>r. item ?w [r] *
                               prod_list (map (\<lambda>m. item (?A m) [oi ! m, r]) [0..<?M])) [0..<R]))
                   (ndindex (map (\<lambda>m. nrows (fs ! m)) [0..<?M]))))"
    using M A by (intro contract_cp) simp_all
  then have "einsum ((''R'' @ concat (map (\<lambda>m. '', '' @ [mode_label m, CHR ''R'']) [0..<?M])) @ '' -> '' @
                  map mode_label [0..<?M]) (?w # map asarray fs) =
        Inr (NDArray (map nrows fs)
               (map (\<lambda>oi. \<Sum>r<R. data w ! r * (\<Prod>m<length fs. item (asarray (fs ! m)) [oi ! m, r]))
                    (ndindex (map nrows fs))))"
    unfolding einsum_cp [OF M] ops rows sum_list_upt prod_list_upt item_vector .
  then show ?thesis
    unfolding cp_dense_def wts by (simp add: cp_subscripts_modes [OF M])
qed

lemma zip_same_maps: "zip (map f xs) (map g xs) = map (\<lambda>x. (f x, g x)) xs"
  by (induction xs) auto

lemma lookup_zip_map_nth0:
  assumes "inj_on c {..<n}" and "length vs = n" and "m < n"
  shows "lookup (zip (map c [0..<n]) vs) (c m) = vs ! m"
  using lookup_zip_map_nth [OF assms, of "[]"] by simp

lemma contract_tucker:
  fixes core :: "'a::comm_semiring_1 ndarray" and A :: "nat \<Rightarrow> 'a ndarray"
  assumes M: "M \<le> 26" and core: "shape core = map rk [0..<M]"
    and A: "\<forall>m<M. shape (A m) = [n m, rk m]"
  shows "contract (map rank_label [0..<M] # map (\<lambda>m. [mode_label m, rank_label m]) [0..<M])
                  (map mode_label [0..<M]) (core # map A [0..<M]) =
         Inr (NDArray (map n [0..<M])
               (map (\<lambda>oi. sum_list (map (\<lambda>si. item core si *
                                prod_list (map (\<lambda>m. item (A m) [oi ! m, si ! m]) [0..<M]))
                              (ndindex (map rk [0..<M]))))
                    (ndindex (map n [0..<M]))))"
proof -
  let ?c = mode_label
  let ?C = rank_label
  let ?ms = "[0..<M]"
  let ?ins = "map ?C ?ms # map (\<lambda>m. [?c m, ?C m]) ?ms"
  let ?out = "map ?c ?ms"
  let ?sum = "map ?C ?ms"
  let ?ops = "core # map A ?ms"
  let ?E = "zip (map ?C ?ms) (map rk ?ms) @ concat (map (\<lambda>m. [(?c m, n m), (?C m, rk m)]) ?ms)"
  have lt: "m < 26" if "m < M" for m using that M by simp
  have inj: "inj_on ?c {..<M}" using M by (rule inj_on_mode_label)
  have inj': "inj_on ?c (set ?ms)" using inj by (simp add: lessThan_atLeast0)
  have injC: "inj_on ?C {..<M}" using M by (rule inj_on_rank_label)
  have injC': "inj_on ?C (set ?ms)" using injC by (simp add: lessThan_atLeast0)
  have cC: "?c m \<noteq> ?C k" if "m < M" "k < M" for m k
    using lt [OF that(1)] lt [OF that(2)] by (rule mode_neq_rank)
  have Cout: "?C m \<notin> set ?out" if "m < M" for m
  proof
    assume "?C m \<in> set ?out"
    then obtain k where "k < M" "?c k = ?C m" by auto
    then show False using cC that by blast
  qed
  have cSum: "?c m \<notin> set ?sum" if "m < M" for m
  proof
    assume "?c m \<in> set ?sum"
    then obtain k where "k < M" "?C k = ?c m" by auto
    then show False using cC [OF that, of k] by simp
  qed
  have len: "length ?ins = length ?ops" by simp
  have dims: "list_all2 (\<lambda>ls a. length ls = ndim a) ?ins ?ops"
    using core A by (simp add: list_all2_same ndim_def)
  have me: "map (\<lambda>m. zip [?c m, ?C m] (shape (A m))) ?ms = map (\<lambda>m. [(?c m, n m), (?C m, rk m)]) ?ms"
    using A by (intro map_cong) simp_all
  have ext: "concat (map2 (\<lambda>ls a. zip ls (shape a)) ?ins ?ops) = ?E"
    by (simp add: map2_same me core)
  have lkC: "lookup ?E (?C m) = rk m" if "m < M" for m
  proof -
    have "lookup (zip (map ?C ?ms) (map rk ?ms) @ concat (map (\<lambda>m. [(?c m, n m), (?C m, rk m)]) ?ms)) (?C m)
          = map rk ?ms ! m"
      using injC _ that by (rule lookup_zip_map_nth) simp
    then show ?thesis using that by simp
  qed
  have lkc: "lookup ?E (?c m) = n m" if "m < M" for m
  proof -
    have "m \<in> set ?ms" using that by simp
    moreover have "\<forall>k \<in> set ?ms. ?C k \<noteq> ?c m"
      using cC [OF that] by (metis atLeastLessThan_iff set_upt)
    ultimately have "lookup (concat (map (\<lambda>k. [(?c k, n k), (?C k, rk k)]) ?ms)) (?c m) = n m"
      using inj' by (intro lookup_pairs)
    then show ?thesis by (simp only: lookup_zip_skip [OF cSum [OF that]])
  qed
  have cons: "list_all (\<lambda>(l, x). lookup ?E l = x) ?E"
  proof -
    have "lookup ?E l = x" if "(l, x) \<in> set ?E" for l x
    proof -
      from that consider m where "m < M" "l = ?C m" "x = rk m"
        | m where "m < M" "l = ?c m" "x = n m"
        by (auto simp: zip_same_maps)
      then show ?thesis
      proof cases
        case 1
        then show ?thesis using lkC by simp
      next
        case 2
        then show ?thesis using lkc by simp
      qed
    qed
    then show ?thesis unfolding list_all_iff by blast
  qed
  have dist: "distinct ?out" using inj' by (simp add: distinct_map)
  have distC: "distinct ?sum" using injC' by (simp add: distinct_map)
  have sub: "set ?out \<subseteq> set (concat ?ins)" by auto
  have f1: "filter (\<lambda>l. l \<notin> set ?out) (concat (map (\<lambda>m. [?c m, ?C m]) ?ms)) = map ?C ?ms"
    using Cout by (intro filter_pairs_keep_snd) auto
  have f2: "filter (\<lambda>l. l \<notin> set ?out) (map ?C ?ms) = map ?C ?ms"
    using Cout by (intro filter_True) auto
  have "filter (\<lambda>l. l \<notin> set ?out) (concat ?ins) = ?sum @ ?sum"
    unfolding concat.simps filter_append f1 f2 ..
  then have summed: "remdups (filter (\<lambda>l. l \<notin> set ?out) (concat ?ins)) = ?sum"
    using distC by (simp only: remdups_absorb [OF subset_refl] distinct_remdups_id)
  have sh: "map (lookup ?E) ?out = map n ?ms"
    using lkc by (simp add: comp_def)
  have shS: "map (lookup ?E) ?sum = map rk ?ms"
    using lkC by (simp add: comp_def)
  have tm: "prod_list (map2 (\<lambda>ls a. item a (map (lookup (zip (?out @ ?sum) (oi @ si))) ls)) ?ins ?ops)
            = item core si * prod_list (map (\<lambda>m. item (A m) [oi ! m, si ! m]) ?ms)"
    if oi: "oi \<in> set (ndindex (map n ?ms))" and si: "si \<in> set (ndindex (map rk ?ms))" for oi si
  proof -
    have lo: "length oi = M" using ndindex_length [OF oi] by simp
    have ls: "length si = M" using ndindex_length [OF si] by simp
    have env: "zip (?out @ ?sum) (oi @ si) = zip ?out oi @ zip ?sum si"
      using lo by simp
    have ec: "lookup (zip ?out oi @ zip ?sum si) (?c m) = oi ! m" if "m < M" for m
      using inj lo that by (rule lookup_zip_map_nth)
    have eC: "lookup (zip ?out oi @ zip ?sum si) (?C m) = si ! m" if "m < M" for m
    proof -
      have "lookup (zip ?sum si) (?C m) = si ! m"
        using injC ls that by (rule lookup_zip_map_nth0)
      then show ?thesis by (simp only: lookup_zip_skip [OF Cout [OF that]])
    qed
    have "map (\<lambda>m. lookup (zip ?out oi @ zip ?sum si) (?C m)) ?ms = map ((!) si) ?ms"
      by (rule map_cong [OF refl]) (simp add: eC)
    also have "\<dots> = si" using map_nth [of si] ls by simp
    finally have cidx: "map (lookup (zip ?out oi @ zip ?sum si)) ?sum = si"
      by (simp add: comp_def)
    have "map (\<lambda>m. item (A m) [lookup (zip ?out oi @ zip ?sum si) (?c m),
                                lookup (zip ?out oi @ zip ?sum si) (?C m)]) ?ms
          = map (\<lambda>m. item (A m) [oi ! m, si ! m]) ?ms"
      by (rule map_cong [OF refl]) (simp add: ec eC)
    then have pm: "prod_list (map (\<lambda>m. item (A m) [lookup (zip ?out oi @ zip ?sum si) (?c m),
                                lookup (zip ?out oi @ zip ?sum si) (?C m)]) ?ms)
          = prod_list (map (\<lambda>m. item (A m) [oi ! m, si ! m]) ?ms)"
      by (rule arg_cong)
    have "prod_list (map2 (\<lambda>ls a. item a (map (lookup (zip ?out oi @ zip ?sum si)) ls)) ?ins ?ops)
          = item core (map (lookup (zip ?out oi @ zip ?sum si)) ?sum) *
            prod_list (map (\<lambda>m. item (A m) [lookup (zip ?out oi @ zip ?sum si) (?c m),
                                lookup (zip ?out oi @ zip ?sum si) (?C m)]) ?ms)"
      by (simp add: map2_same del: map_map)
    then show ?thesis unfolding env cidx pm .
  qed
  have "contract ?ins ?out ?ops =
         Inr (NDArray (map (lookup ?E) ?out)
               (map (\<lambda>oi. sum_list (map (\<lambda>si. prod_list
                         (map2 (\<lambda>ls a. item a (map (lookup (zip (?out @ ?sum) (oi @ si))) ls)) ?ins ?ops))
                       (ndindex (map (lookup ?E) ?sum))))
                    (ndindex (map (lookup ?E) ?out))))"
    using len dims ext cons dist sub summed by (rule contract_ok)
  also have "\<dots> = Inr (NDArray (map n ?ms)
               (map (\<lambda>oi. sum_list (map (\<lambda>si. prod_list
                         (map2 (\<lambda>ls a. item a (map (lookup (zip (?out @ ?sum) (oi @ si))) ls)) ?ins ?ops))
                       (ndindex (map rk ?ms))))
                    (ndindex (map n ?ms))))"
    unfolding sh shS ..
  also have "\<dots> = Inr (NDArray (map n ?ms)
               (map (\<lambda>oi. sum_list (map (\<lambda>si. item core si *
                                prod_list (map (\<lambda>m. item (A m) [oi ! m, si ! m]) ?ms))
                              (ndindex (map rk ?ms))))
                    (ndindex (map n ?ms))))"
    using tm by (simp only: sum.inject ndarray.inject simp_thms cong: map_cong)
  finally show ?thesis .
qed

lemma tucker_subscripts_modes:
  assumes "M \<le> 26"
  shows "tucker_subscripts [0..<M] ('''', '''', '''') =
         Inr (map rank_label [0..<M],
              concat (map (\<lambda>m. '', '' @ [mode_label m, rank_label m]) [0..<M]),
              map mode_label [0..<M])"
  using assms tucker_subscripts_ok [of "[0..<M]" "''''" "''''" "''''"] by simp

lemma einsum_tucker:
  fixes ops :: "'a::comm_semiring_1 ndarray list"
  assumes "M \<le> 26"
  shows "einsum (map rank_label [0..<M] @
                 concat (map (\<lambda>m. '', '' @ [mode_label m, rank_label m]) [0..<M]) @ '' -> '' @
                 map mode_label [0..<M]) ops =
         contract (map rank_label [0..<M] # map (\<lambda>m. [mode_label m, rank_label m]) [0..<M])
                  (map mode_label [0..<M]) ops"
proof -
  have a: "list_all isalpha (map rank_label [0..<M])"
    using assms by (simp add: list_all_iff isalpha_rank_label)
  have b: "\<forall>m \<in> set [0..<M]. list_all isalpha [mode_label m, rank_label m]"
    using assms by (simp add: isalpha_rank_label isalpha_mode_label)
  have c: "list_all isalpha (map mode_label [0..<M])"
    using assms by (simp add: list_all_iff isalpha_mode_label)
  have "parse_subscripts (map rank_label [0..<M] @
                 concat (map (\<lambda>m. '', '' @ [mode_label m, rank_label m]) [0..<M]) @ '' -> '' @
                 map mode_label [0..<M]) =
        Inr (map rank_label [0..<M] # map (\<lambda>m. [mode_label m, rank_label m]) [0..<M],
             map mode_label [0..<M])"
    using a b c by (rule parse_generated)
  then show ?thesis by (simp add: einsum_def)
qed

lemma tucker_to_tensor_eq:
  fixes core :: "'a::comm_semiring_1 ndarray" and fs :: "('a, 'l) matrix list"
  assumes M: "length fs \<le> 26" and core: "ndim core = length fs"
    and A: "\<forall>m<length fs. shape (asarray (fs ! m)) = [nrows (fs ! m), shape core ! m]"
  shows "tucker_to_tensor (core, fs) =
         Inr (Ndarray (NDArray (map nrows fs)
                (map (tucker_formula core fs) (ndindex (map nrows fs)))))"
proof -
  let ?M = "length fs"
  let ?A = "\<lambda>m. asarray (fs ! m)"
  have ops: "map asarray fs = map ?A [0..<?M]"
    by (intro nth_equalityI) simp_all
  have rows: "map nrows fs = map (\<lambda>m. nrows (fs ! m)) [0..<?M]"
    by (intro nth_equalityI) simp_all
  have cs: "shape core = map ((!) (shape core)) [0..<?M]"
    using core map_nth [of "shape core"] by (simp add: ndim_def)
  have "contract (map rank_label [0..<?M] # map (\<lambda>m. [mode_label m, rank_label m]) [0..<?M])
                 (map mode_label [0..<?M]) (core # map ?A [0..<?M]) =
        Inr (NDArray (map (\<lambda>m. nrows (fs ! m)) [0..<?M])
              (map (\<lambda>oi. sum_list (map (\<lambda>si. item core si *
                               prod_list (map (\<lambda>m. item (?A m) [oi ! m, si ! m]) [0..<?M]))
                             (ndindex (map ((!) (shape core)) [0..<?M]))))
                   (ndindex (map (\<lambda>m. nrows (fs ! m)) [0..<?M]))))"
    using M cs A by (intro contract_tucker) simp_all
  then have "einsum (map rank_label [0..<?M] @
                 concat (map (\<lambda>m. '', '' @ [mode_label m, rank_label m]) [0..<?M]) @ '' -> '' @
                 map mode_label [0..<?M]) (core # map asarray fs) =
        Inr (NDArray (map nrows fs) (map (tucker_formula core fs) (ndindex (map nrows fs))))"
    unfolding einsum_tucker [OF M] ops rows prod_list_upt cs [symmetric] tucker_formula_def [abs_def] .
  then show ?thesis
    by (simp add: tucker_to_tensor_def tucker_subscripts_modes [OF M])
qed

lemma cp_weights_ones:
  fixes fs :: "('a::comm_semiring_1, 'l) matrix list"
  assumes "fs \<noteq> []" and "shape (asarray (hd fs)) = [n, R]"
  shows "cp_weights (None, fs) = cp_weights (Some (ones R), fs)"
  using assms
  by (cases fs) (simp_all add: cp_weights_def tuple_get_def reshape_flat ones_def)

lemma cp_weights_flatten:
  fixes w :: "'a::comm_semiring_1 ndarray"
  assumes "wf_array w"
  shows "cp_weights (Some (flatten w), fs) = cp_weights (Some w, fs)"
  using assms by (simp add: cp_weights_def reshape_flat flatten_def wf_array_def)

lemma cp_to_tensor_weights_cong:
  assumes "cp_weights (w, fs) = cp_weights (w', fs)"
  shows "cp_to_tensor (w, fs) = cp_to_tensor (w', fs)"
  using assms by (simp add: cp_to_tensor_def cp_dense_def is_labelled_cp_def cong: sum.case_cong if_cong)

lemma update_fresh: "k \<notin> fst ` set ps \<Longrightarrow> AList.update k v ps = ps @ [(k, v)]"
  by (induction ps) auto

lemma fold_update_distinct:
  assumes "distinct (map f es)" and "set (map f es) \<inter> fst ` set cd = {}"
  shows "fold (\<lambda>e. AList.update (f e) (g e)) es cd = cd @ map (\<lambda>e. (f e, g e)) es"
  using assms
proof (induction es arbitrary: cd)
  case Nil
  then show ?case by simp
next
  case (Cons e es)
  have fresh: "f e \<notin> fst ` set cd" using Cons.prems(2) by auto
  have "set (map f es) \<inter> fst ` set (cd @ [(f e, g e)]) = {}"
    using Cons.prems by auto
  then have "fold (\<lambda>e. AList.update (f e) (g e)) es (cd @ [(f e, g e)])
             = (cd @ [(f e, g e)]) @ map (\<lambda>e. (f e, g e)) es"
    using Cons.prems(1) by (intro Cons.IH) simp_all
  then show ?case by (simp add: update_fresh [OF fresh])
qed

lemma cp_coords_frames:
  "list_all is_dataframe (map snd es) \<Longrightarrow>
   cp_coords es (cd, ds) =
     Inr (fold (\<lambda>e. AList.update (axis_name (fst e) (snd e)) (row_labels (snd e))) es cd,
          ds @ map (\<lambda>e. axis_name (fst e) (snd e)) es)"
proof (induction es arbitrary: cd ds)
  case Nil
  then show ?case by simp
next
  case (Cons e es)
  obtain mode fm where e: "e = (mode, fm)" by (cases e)
  from Cons.prems e obtain a labels name where fm: "fm = DataFrame a labels name"
    by (cases fm) simp_all
  have rest: "list_all is_dataframe (map snd es)" using Cons.prems by simp
  show ?case
    by (cases name) (simp_all add: e fm Cons.IH [OF rest] axis_name_def Let_def)
qed

lemma map_snd_enumerate: "map snd (enumerate n xs) = xs"
  by (simp add: enumerate_eq_zip)

lemma cp_coords_labelled:
  assumes "list_all is_dataframe fs" and "distinct (axis_names fs)"
  shows "cp_coords (enumerate 0 fs) ([], []) =
         Inr (zip (axis_names fs) (map row_labels fs), axis_names fs)"
proof -
  let ?f = "\<lambda>e. axis_name (fst e) (snd e)"
  let ?g = "\<lambda>e :: nat \<times> ('a, 'b) matrix. row_labels (snd e)"
  have names: "axis_names fs = map ?f (enumerate 0 fs)"
    by (simp add: axis_names_def case_prod_unfold)
  have "fold (\<lambda>e. AList.update (?f e) (?g e)) (enumerate 0 fs) [] =
        [] @ map (\<lambda>e. (?f e, ?g e)) (enumerate 0 fs)"
    using assms(2) unfolding names by (intro fold_update_distinct) simp_all
  also have "\<dots> = zip (map ?f (enumerate 0 fs)) (map ?g (enumerate 0 fs))"
    by (simp add: zip_same_maps)
  also have "map ?g (enumerate 0 fs) = map row_labels fs"
  proof -
    have "map ?g (enumerate 0 fs) = map row_labels (map snd (enumerate 0 fs))"
      by (simp only: map_map comp_def)
    then show ?thesis by (simp only: map_snd_enumerate)
  qed
  finally have "fold (\<lambda>e. AList.update (?f e) (?g e)) (enumerate 0 fs) [] =
        zip (axis_names fs) (map row_labels fs)"
    unfolding names .
  then show ?thesis
    using cp_coords_frames [of "enumerate 0 fs" "[]" "[]"] assms(1)
    by (simp add: map_snd_enumerate names)
qed

lemma cp_coords_succeeds:
  assumes "list_all is_dataframe fs"
  shows "\<exists>coords dims. cp_coords (enumerate 0 fs) ([], []) = Inr (coords, dims)"
  using cp_coords_frames [of "enumerate 0 fs" "[]" "[]"] assms
  by (simp add: map_snd_enumerate)

lemma cp_dense_cong:
  assumes "cp_weights (w, fs) = cp_weights (w', fs)"
  shows "cp_dense (w, fs) = cp_dense (w', fs)"
  using assms by (simp add: cp_dense_def cong: sum.case_cong)

lemma cp_dense_valid:
  fixes fs :: "('a::comm_semiring_1, 'l) matrix list"
  assumes "valid_cp R (w, fs)"
  shows "\<exists>t. cp_dense (w, fs) = Inr t"
proof -
  have M: "length fs \<le> 26" and A: "\<forall>fm \<in> set fs. shape (asarray fm) = [nrows fm, R]"
    using assms by (simp_all add: valid_cp_def list_all_iff)
  show ?thesis
  proof (cases w)
    case (Some w')
    then have "prod_list (shape w') = R" using assms by (simp add: valid_cp_def)
    then show ?thesis using cp_dense_weights [OF M _ A, of w'] Some by simp
  next
    case None
    then have ne: "fs \<noteq> []" using assms by (simp add: valid_cp_def)
    then have "shape (asarray (hd fs)) = [nrows (hd fs), R]" using A by simp
    then have "cp_dense (None, fs) = cp_dense (Some (ones R), fs)"
      using ne by (intro cp_dense_cong cp_weights_ones)
    moreover have "prod_list (shape (ones R :: 'a ndarray)) = R" by (simp add: ones_def)
    ultimately show ?thesis
      using cp_dense_weights [OF M _ A, of "ones R"] None by simp
  qed
qed

lemma split_arrow_not_modes: "split_arrow s \<noteq> Inl ModesValueError"
proof (induction s)
  case Nil
  then show ?case by simp
next
  case (Cons c cs)
  show ?case
  proof (cases "c = CHR ''-''")
    case True
    then show ?thesis by (cases cs) simp_all
  next
    case False
    then show ?thesis using Cons.IH by (cases "split_arrow cs") auto
  qed
qed

lemma parse_not_modes: "parse_subscripts s \<noteq> Inl ModesValueError"
proof (cases "split_arrow s")
  case (Inl e)
  then show ?thesis using split_arrow_not_modes [of s] by (simp add: parse_subscripts_def)
next
  case (Inr p)
  then show ?thesis by (cases p) (simp add: parse_subscripts_def Let_def)
qed

lemma contract_not_modes: "contract ins out ops \<noteq> Inl ModesValueError"
  unfolding contract_def Let_def by (simp only: if_distrib [of "\<lambda>x. x \<noteq> Inl ModesValueError"] sum.inject sum.distinct error.distinct simp_thms if_bool_eq_conj) 

lemma einsum_not_modes: "einsum s ops \<noteq> Inl ModesValueError"
proof (cases "parse_subscripts s")
  case (Inl e)
  then show ?thesis using parse_not_modes [of s] by (simp add: einsum_def)
next
  case (Inr p)
  then show ?thesis using contract_not_modes by (cases p) (simp add: einsum_def)
qed

section \<open>Properties of \<^verbatim>\<open>cp_to_tensor\<close> and \<^verbatim>\<open>tucker_to_tensor\<close>\<close>

lemma cp_to_tensor_weighted:
  fixes w :: "'a::comm_semiring_1 ndarray" and fs :: "('a, 'l) matrix list"
  assumes "length fs \<le> 26" and "wf_array w" and "prod_list (shape w) = R"
    and "\<forall>fm \<in> set fs. shape (asarray fm) = [nrows fm, R]"
  shows "\<exists>res. cp_to_tensor (Some w, fs) = Inr res \<and>
               shape (tensor_values res) = map nrows fs \<and>
               (\<forall>idx. valid_index (map nrows fs) idx \<longrightarrow>
                  item (tensor_values res) idx = cp_formula (data w) fs idx)"
proof -
  let ?t = "NDArray (map nrows fs) (map (cp_formula (data w) fs) (ndindex (map nrows fs)))"
  have len: "length (data w) = R" using assms(2,3) by (simp add: wf_array_def)
  have d: "cp_dense (Some w, fs) = Inr ?t"
    using cp_dense_weights [OF assms(1) assms(3) assms(4)]
    by (simp add: cp_formula_def [abs_def] len)
  have it: "\<forall>idx. valid_index (map nrows fs) idx \<longrightarrow> item ?t idx = cp_formula (data w) fs idx"
    by (simp add: item_tabulate)
  show ?thesis
  proof (cases "list_all is_dataframe fs")
    case True
    then obtain coords dims where "cp_coords (enumerate 0 fs) ([], []) = Inr (coords, dims)"
      using cp_coords_succeeds by blast
    then have "cp_to_tensor (Some w, fs) = Inr (DataArray ?t dims coords)"
      using True d by (simp add: cp_to_tensor_def is_labelled_cp_def)
    then show ?thesis using it by simp
  next
    case False
    then have "cp_to_tensor (Some w, fs) = Inr (Ndarray ?t)"
      using d by (simp add: cp_to_tensor_def is_labelled_cp_def)
    then show ?thesis using it by simp
  qed
qed

text \<open>
  C1. For a weight vector \<open>w\<close> of length \<open>R\<close> and at most 26 factor matrices, each of shape
  \<open>(n\<^sub>m, R)\<close>, \<^verbatim>\<open>cp_to_tensor\<close> returns a dense tensor of shape \<open>(n\<^sub>0, ..., n\<^sub>M\<^sub>-\<^sub>1)\<close> whose
  element at each index \<open>(i\<^sub>0, ..., i\<^sub>M\<^sub>-\<^sub>1)\<close> is the sum over \<open>r < R\<close> of \<open>w[r]\<close> times the
  product over the modes of \<open>A\<^sub>m[i\<^sub>m, r]\<close>.
\<close>

theorem cp_to_tensor_formula:
  fixes w :: "'a::comm_semiring_1 ndarray" and fs :: "('a, 'l) matrix list"
  assumes "length fs \<le> 26" and "wf_array w" and "shape w = [R]"
    and "\<forall>fm \<in> set fs. shape (asarray fm) = [nrows fm, R]"
  shows "\<exists>res. cp_to_tensor (Some w, fs) = Inr res \<and>
               shape (tensor_values res) = map nrows fs \<and>
               (\<forall>idx. valid_index (map nrows fs) idx \<longrightarrow>
                  item (tensor_values res) idx = cp_formula (data w) fs idx)"
proof -
  let ?t = "NDArray (map nrows fs) (map (cp_formula (data w) fs) (ndindex (map nrows fs)))"
  have len: "length (data w) = R" using assms(2,3) by (simp add: wf_array_def)
  have "prod_list (shape w) = R" using assms(3) by simp
  then have d: "cp_dense (Some w, fs) = Inr ?t"
    using cp_dense_weights [OF assms(1) _ assms(4), of w]
    by (simp add: cp_formula_def [abs_def] len)
  have it: "\<forall>idx. valid_index (map nrows fs) idx \<longrightarrow> item ?t idx = cp_formula (data w) fs idx"
    by (simp add: item_tabulate)
  show ?thesis
  proof (cases "list_all is_dataframe fs")
    case True
    then obtain coords dims where "cp_coords (enumerate 0 fs) ([], []) = Inr (coords, dims)"
      using cp_coords_succeeds by blast
    then have "cp_to_tensor (Some w, fs) = Inr (DataArray ?t dims coords)"
      using True d by (simp add: cp_to_tensor_def is_labelled_cp_def)
    then show ?thesis using it by simp
  next
    case False
    then have "cp_to_tensor (Some w, fs) = Inr (Ndarray ?t)"
      using d by (simp add: cp_to_tensor_def is_labelled_cp_def)
    then show ?thesis using it by simp
  qed
qed

theorem cp_to_tensor_formula_witness:
  "\<exists>res. cp_to_tensor (Some (NDArray [2] [1, 10 :: int]),
                        [Array (NDArray [2, 2] [1, 2, 3, 4]), Array (NDArray [3, 2] [1, 0, 0, 1, 1, 1])
                         :: (int, nat) matrix]) = Inr res \<and>
         shape (tensor_values res) = [2, 3] \<and>
         item (tensor_values res) [1, 2] = 43"
proof -
  let ?w = "NDArray [2] [1, 10 :: int]"
  let ?fs = "[Array (NDArray [2, 2] [1, 2, 3, 4]), Array (NDArray [3, 2] [1, 0, 0, 1, 1, 1])
              :: (int, nat) matrix]"
  have f: "cp_formula [1, 10 :: int] ?fs [1, 2] = 43" by code_simp
  have v: "valid_index (map nrows ?fs) [1, 2]" by (simp add: valid_index_def nrows_def)
  have "length ?fs \<le> 26" "wf_array ?w" "shape ?w = [2]"
       "\<forall>fm \<in> set ?fs. shape (asarray fm) = [nrows fm, 2]"
    by (simp_all add: wf_array_def nrows_def)
  from cp_to_tensor_formula [OF this] obtain res where
    "cp_to_tensor (Some ?w, ?fs) = Inr res" "shape (tensor_values res) = map nrows ?fs"
    "\<forall>idx. valid_index (map nrows ?fs) idx \<longrightarrow> item (tensor_values res) idx = cp_formula (data ?w) ?fs idx"
    by blast
  then show ?thesis using f v by (auto simp: nrows_def)
qed

text \<open>
  C2. For a core with one axis per factor matrix and at most 26 factor matrices, the
  \<open>m\<close>-th of shape \<open>(n\<^sub>m, R\<^sub>m)\<close> with \<open>R\<^sub>m\<close> the extent of the core along \<open>m\<close>,
  \<^verbatim>\<open>tucker_to_tensor\<close> returns a plain array of shape \<open>(n\<^sub>0, ..., n\<^sub>M\<^sub>-\<^sub>1)\<close> whose element at each
  index is the sum over the index combinations of the core of the core's element times
  the product over the modes of \<open>A\<^sub>m[i\<^sub>m, r\<^sub>m]\<close>. The factor matrices may be plain or labelled:
  the result is plain in both cases.
\<close>

theorem tucker_to_tensor_formula:
  fixes core :: "'a::comm_semiring_1 ndarray" and fs :: "('a, 'l) matrix list"
  assumes "length fs \<le> 26" and "ndim core = length fs"
    and "\<forall>m<length fs. shape (asarray (fs ! m)) = [nrows (fs ! m), shape core ! m]"
  shows "\<exists>t. tucker_to_tensor (core, fs) = Inr (Ndarray t) \<and>
             shape t = map nrows fs \<and>
             (\<forall>idx. valid_index (map nrows fs) idx \<longrightarrow> item t idx = tucker_formula core fs idx)"
  using tucker_to_tensor_eq [OF assms] by (simp add: item_tabulate)

theorem tucker_to_tensor_formula_witness:
  "\<exists>t. tucker_to_tensor (NDArray [2, 3] [1, 2, 3, 4, 5, 6 :: int],
                         [DataFrame (NDArray [4, 2] [1, 0, 0, 1, 1, 1, 2, 0]) [10, 11, 12, 13 :: nat] (Some ''x''),
                          DataFrame (NDArray [5, 3] [1, 0, 0, 0, 1, 0, 0, 0, 1, 1, 1, 1, 0, 0, 2]) [0, 1, 2, 3, 4] None]) =
          Inr (Ndarray t) \<and>
       shape t = [4, 5] \<and> item t [2, 3] = 21"
proof -
  let ?core = "NDArray [2, 3] [1, 2, 3, 4, 5, 6 :: int]"
  let ?fs = "[DataFrame (NDArray [4, 2] [1, 0, 0, 1, 1, 1, 2, 0]) [10, 11, 12, 13] (Some ''x''),
              DataFrame (NDArray [5, 3] [1, 0, 0, 0, 1, 0, 0, 0, 1, 1, 1, 1, 0, 0, 2]) [0, 1, 2, 3, 4] None]
             :: (int, nat) matrix list"
  have f: "tucker_formula ?core ?fs [2, 3] = 21" by code_simp
  have v: "valid_index (map nrows ?fs) [2, 3]" by (simp add: valid_index_def nrows_def)
  have "length ?fs \<le> 26" "ndim ?core = length ?fs"
       "\<forall>m<length ?fs. shape (asarray (?fs ! m)) = [nrows (?fs ! m), shape ?core ! m]"
    by (simp_all add: ndim_def nrows_def less_Suc_eq numeral_2_eq_2)
  from tucker_to_tensor_formula [OF this] obtain t where
    "tucker_to_tensor (?core, ?fs) = Inr (Ndarray t)" "shape t = map nrows ?fs"
    "\<forall>idx. valid_index (map nrows ?fs) idx \<longrightarrow> item t idx = tucker_formula ?core ?fs idx"
    by blast
  then show ?thesis using f v by (auto simp: nrows_def)
qed

text \<open>
  C5, amended. For a valid CP decomposition in which every factor matrix carries row
  labels and the axis names of the modes (the declared name of the index, else
  \<^verbatim>\<open>"Mode {m}"\<close>) are pairwise distinct, \<^verbatim>\<open>cp_to_tensor\<close> returns the dense reconstruction as
  a labelled tensor whose dimension names are these axis names and whose coordinates map
  each axis name to the row labels of its factor matrix, in factor order. If some factor
  matrix carries no labels, it returns the reconstruction as a plain array.
\<close>

theorem cp_to_tensor_labels:
  fixes fs :: "('a::comm_semiring_1, 'l) matrix list"
  assumes "valid_cp R (w, fs)"
  shows "(list_all is_dataframe fs \<and> distinct (axis_names fs) \<longrightarrow>
            (\<exists>t. cp_dense (w, fs) = Inr t \<and>
                 cp_to_tensor (w, fs) =
                   Inr (DataArray t (axis_names fs) (zip (axis_names fs) (map row_labels fs))))) \<and>
         (\<not> list_all is_dataframe fs \<longrightarrow>
            (\<exists>t. cp_dense (w, fs) = Inr t \<and> cp_to_tensor (w, fs) = Inr (Ndarray t)))"
proof -
  obtain t where t: "cp_dense (w, fs) = Inr t"
    using cp_dense_valid [OF assms] by blast
  show ?thesis
  proof (intro conjI impI)
    assume "list_all is_dataframe fs \<and> distinct (axis_names fs)"
    then have "cp_to_tensor (w, fs) =
               Inr (DataArray t (axis_names fs) (zip (axis_names fs) (map row_labels fs)))"
      using t by (simp add: cp_to_tensor_def is_labelled_cp_def cp_coords_labelled)
    then show "\<exists>t. cp_dense (w, fs) = Inr t \<and>
                 cp_to_tensor (w, fs) =
                   Inr (DataArray t (axis_names fs) (zip (axis_names fs) (map row_labels fs)))"
      using t by blast
  next
    assume "\<not> list_all is_dataframe fs"
    then have "cp_to_tensor (w, fs) = Inr (Ndarray t)"
      using t by (simp add: cp_to_tensor_def is_labelled_cp_def)
    then show "\<exists>t. cp_dense (w, fs) = Inr t \<and> cp_to_tensor (w, fs) = Inr (Ndarray t)"
      using t by blast
  qed
qed

theorem cp_to_tensor_labels_witness:
  "cp_to_tensor (None, [DataFrame (NDArray [2, 1] [1, 2 :: int]) [7, 8 :: nat] None,
                        DataFrame (NDArray [2, 1] [1, 1]) [3, 4] (Some ''x'')]) =
     Inr (DataArray (NDArray [2, 2] [1, 1, 2, 2]) [''Mode 0'', ''x'']
            [(''Mode 0'', [7, 8]), (''x'', [3, 4])]) \<and>
   cp_to_tensor (None, [DataFrame (NDArray [2, 1] [1, 2 :: int]) [7, 8 :: nat] None,
                        Array (NDArray [2, 1] [1, 1])]) =
     Inr (Ndarray (NDArray [2, 2] [1, 1, 2, 2]))"
proof -
  let ?a = "DataFrame (NDArray [2, 1] [1, 2 :: int]) [7, 8 :: nat] None"
  let ?b = "DataFrame (NDArray [2, 1] [1, 1 :: int]) [3, 4 :: nat] (Some ''x'')"
  let ?c = "Array (NDArray [2, 1] [1, 1 :: int]) :: (int, nat) matrix"
  have names: "axis_names [?a, ?b] = [''Mode 0'', ''x'']" by code_simp
  have d1: "cp_dense (None, [?a, ?b]) = Inr (NDArray [2, 2] [1, 1, 2, 2])" by code_simp
  have d2: "cp_dense (None, [?a, ?c]) = Inr (NDArray [2, 2] [1, 1, 2, 2])" by code_simp
  have v1: "valid_cp 1 (None, [?a, ?b])" by (simp add: valid_cp_def nrows_def)
  have v2: "valid_cp 1 (None, [?a, ?c])" by (simp add: valid_cp_def nrows_def)
  have "list_all is_dataframe [?a, ?b] \<and> distinct (axis_names [?a, ?b])"
    unfolding names by simp
  with cp_to_tensor_labels [OF v1] d1
  have "cp_to_tensor (None, [?a, ?b]) =
        Inr (DataArray (NDArray [2, 2] [1, 1, 2, 2]) (axis_names [?a, ?b])
              (zip (axis_names [?a, ?b]) (map row_labels [?a, ?b])))"
    by auto
  moreover have "\<not> list_all is_dataframe [?a, ?c]" by simp
  with cp_to_tensor_labels [OF v2] d2
  have "cp_to_tensor (None, [?a, ?c]) = Inr (Ndarray (NDArray [2, 2] [1, 1, 2, 2]))"
    by auto
  ultimately show ?thesis unfolding names by simp
qed

text \<open>
  C5 as stated fails when two factor matrices declare the same index name: the
  coordinates are a dictionary keyed by the axis name, so the labels \<open>[3, 4]\<close> of the second
  factor matrix replace the labels \<open>[7, 8]\<close> of the first, and the coordinates of mode 0 are
  not the row labels of factor matrix 0.
\<close>

theorem cp_to_tensor_same_name_counterexample:
  "cp_to_tensor (None, [DataFrame (NDArray [2, 1] [1, 2 :: int]) [7, 8 :: nat] (Some ''x''),
                        DataFrame (NDArray [2, 1] [1, 1]) [3, 4] (Some ''x'')]) =
     Inr (DataArray (NDArray [2, 2] [1, 1, 2, 2]) [''x'', ''x''] [(''x'', [3, 4])])"
  by code_simp

text \<open>
  C6, amended. For a non-empty sequence of at most 26 factor matrices with \<open>R\<close> columns
  each, \<^verbatim>\<open>cp_to_tensor((None, factors))\<close> and \<^verbatim>\<open>cp_to_tensor((v, factors))\<close> with \<open>v\<close> the all-ones
  weight vector of length \<open>R\<close> both return a tensor, and it is the same one: its shape is
  \<open>(n\<^sub>0, ..., n\<^sub>M\<^sub>-\<^sub>1)\<close> and its elements are those of the CP formula with every weight 1.
\<close>

theorem cp_to_tensor_default_weights:
  fixes fs :: "('a::comm_semiring_1, 'l) matrix list"
  assumes "fs \<noteq> []" and "length fs \<le> 26"
    and "\<forall>fm \<in> set fs. shape (asarray fm) = [nrows fm, R]"
  shows "\<exists>res. cp_to_tensor (None, fs) = Inr res \<and>
               cp_to_tensor (Some (ones R), fs) = Inr res \<and>
               shape (tensor_values res) = map nrows fs \<and>
               (\<forall>idx. valid_index (map nrows fs) idx \<longrightarrow>
                  item (tensor_values res) idx = cp_formula (replicate R 1) fs idx)"
proof -
  have "shape (asarray (hd fs)) = [nrows (hd fs), R]" using assms(1,3) by simp
  then have same: "cp_to_tensor (None, fs) = cp_to_tensor (Some (ones R), fs)"
    using assms(1) by (intro cp_to_tensor_weights_cong cp_weights_ones)
  have "wf_array (ones R :: 'a ndarray)" "prod_list (shape (ones R :: 'a ndarray)) = R"
    by (simp_all add: ones_def wf_array_def)
  from cp_to_tensor_weighted [OF assms(2) this assms(3)] obtain res where
    "cp_to_tensor (Some (ones R), fs) = Inr res" "shape (tensor_values res) = map nrows fs"
    "\<forall>idx. valid_index (map nrows fs) idx \<longrightarrow>
       item (tensor_values res) idx = cp_formula (data (ones R :: 'a ndarray)) fs idx"
    by blast
  then show ?thesis using same by (auto simp: ones_def)
qed

theorem cp_to_tensor_default_weights_witness:
  "\<exists>res. cp_to_tensor (None, [Array (NDArray [2, 2] [1, 2, 3, 4 :: int]),
                               Array (NDArray [3, 2] [1, 0, 0, 1, 1, 1]) :: (int, nat) matrix]) = Inr res \<and>
         cp_to_tensor (Some (ones 2), [Array (NDArray [2, 2] [1, 2, 3, 4 :: int]),
                                       Array (NDArray [3, 2] [1, 0, 0, 1, 1, 1])]) = Inr res \<and>
         shape (tensor_values res) = [2, 3] \<and>
         item (tensor_values res) [1, 2] = 7"
proof -
  let ?fs = "[Array (NDArray [2, 2] [1, 2, 3, 4 :: int]), Array (NDArray [3, 2] [1, 0, 0, 1, 1, 1])]
             :: (int, nat) matrix list"
  have f: "cp_formula (replicate 2 1) ?fs [1, 2] = 7" by code_simp
  have v: "valid_index (map nrows ?fs) [1, 2]" by (simp add: valid_index_def nrows_def)
  have "?fs \<noteq> []" "length ?fs \<le> 26" "\<forall>fm \<in> set ?fs. shape (asarray fm) = [nrows fm, 2]"
    by (simp_all add: nrows_def)
  from cp_to_tensor_default_weights [OF this] obtain res where
    "cp_to_tensor (None, ?fs) = Inr res" "cp_to_tensor (Some (ones 2), ?fs) = Inr res"
    "shape (tensor_values res) = map nrows ?fs"
    "\<forall>idx. valid_index (map nrows ?fs) idx \<longrightarrow>
       item (tensor_values res) idx = cp_formula (replicate 2 1) ?fs idx"
    by blast
  then show ?thesis using f v by (auto simp: nrows_def)
qed

text \<open>
  C6 as stated fails for the empty sequence of factor matrices (zero modes, any \<open>R\<close>):
  without weights the rank is read from \<^verbatim>\<open>cp_tensor[1][0]\<close>, which raises \<^verbatim>\<open>IndexError\<close>,
  while with explicit all-ones weights the contraction \<^verbatim>\<open>"R -> "\<close> returns their sum.
\<close>

theorem cp_to_tensor_no_factors_counterexample:
  "cp_to_tensor (None, [] :: (int, nat) matrix list) = Inl IndexError \<and>
   cp_dense (Some (ones 2), [] :: (int, nat) matrix list) = Inr (NDArray [] [2]) \<and>
   cp_to_tensor (None, [] :: (int, nat) matrix list) \<noteq> cp_to_tensor (Some (ones 2), [])"
  by code_simp

text \<open>
  C10. For weights \<open>w\<close> of any shape holding \<open>R\<close> elements in total and at most 26 factor
  matrices with \<open>R\<close> columns each, \<^verbatim>\<open>cp_to_tensor((w, factors))\<close> and \<^verbatim>\<open>cp_to_tensor\<close> of the
  length-\<open>R\<close> vector obtained by flattening \<open>w\<close> in row-major order both return a tensor, and
  it is the same one: its shape is \<open>(n\<^sub>0, ..., n\<^sub>M\<^sub>-\<^sub>1)\<close> and its elements are those of the CP
  formula for the flattened weights. The weights are flattened before use, not required
  to be one-dimensional.
\<close>

theorem cp_to_tensor_flattens_weights:
  fixes w :: "'a::comm_semiring_1 ndarray" and fs :: "('a, 'l) matrix list"
  assumes "length fs \<le> 26" and "wf_array w" and "prod_list (shape w) = R"
    and "\<forall>fm \<in> set fs. shape (asarray fm) = [nrows fm, R]"
  shows "\<exists>res. cp_to_tensor (Some w, fs) = Inr res \<and>
               cp_to_tensor (Some (flatten w), fs) = Inr res \<and>
               shape (flatten w) = [R] \<and>
               shape (tensor_values res) = map nrows fs \<and>
               (\<forall>idx. valid_index (map nrows fs) idx \<longrightarrow>
                  item (tensor_values res) idx = cp_formula (data (flatten w)) fs idx)"
proof -
  have same: "cp_to_tensor (Some (flatten w), fs) = cp_to_tensor (Some w, fs)"
    using assms(2) by (intro cp_to_tensor_weights_cong cp_weights_flatten)
  have fl: "shape (flatten w) = [R]" "data (flatten w) = data w"
    using assms(2,3) by (simp_all add: flatten_def wf_array_def)
  from cp_to_tensor_weighted [OF assms] obtain res where
    "cp_to_tensor (Some w, fs) = Inr res" "shape (tensor_values res) = map nrows fs"
    "\<forall>idx. valid_index (map nrows fs) idx \<longrightarrow>
       item (tensor_values res) idx = cp_formula (data w) fs idx"
    by blast
  then show ?thesis using same fl by auto
qed

theorem cp_to_tensor_flattens_weights_witness:
  "\<exists>res. cp_to_tensor (Some (NDArray [2, 1] [1, 10 :: int]),
                        [Array (NDArray [2, 2] [1, 2, 3, 4]),
                         Array (NDArray [3, 2] [1, 0, 0, 1, 1, 1]) :: (int, nat) matrix]) = Inr res \<and>
         cp_to_tensor (Some (NDArray [2] [1, 10]),
                        [Array (NDArray [2, 2] [1, 2, 3, 4]),
                         Array (NDArray [3, 2] [1, 0, 0, 1, 1, 1])]) = Inr res \<and>
         shape (tensor_values res) = [2, 3] \<and>
         item (tensor_values res) [1, 2] = 43"
proof -
  let ?w = "NDArray [2, 1] [1, 10 :: int]"
  let ?fs = "[Array (NDArray [2, 2] [1, 2, 3, 4]), Array (NDArray [3, 2] [1, 0, 0, 1, 1, 1])]
             :: (int, nat) matrix list"
  have fl: "flatten ?w = NDArray [2] [1, 10]" by (simp add: flatten_def)
  have f: "cp_formula [1, 10 :: int] ?fs [1, 2] = 43" by code_simp
  have v: "valid_index (map nrows ?fs) [1, 2]" by (simp add: valid_index_def nrows_def)
  have "length ?fs \<le> 26" "wf_array ?w" "prod_list (shape ?w) = 2"
       "\<forall>fm \<in> set ?fs. shape (asarray fm) = [nrows fm, 2]"
    by (simp_all add: wf_array_def nrows_def)
  from cp_to_tensor_flattens_weights [OF this] obtain res where
    "cp_to_tensor (Some ?w, ?fs) = Inr res" "cp_to_tensor (Some (flatten ?w), ?fs) = Inr res"
    "shape (tensor_values res) = map nrows ?fs"
    "\<forall>idx. valid_index (map nrows ?fs) idx \<longrightarrow>
       item (tensor_values res) idx = cp_formula (data (flatten ?w)) ?fs idx"
    by blast
  then show ?thesis using f v unfolding fl by (auto simp: nrows_def)
qed

text \<open>
  C7. With more than 26 factor matrices both \<^verbatim>\<open>cp_to_tensor\<close> and \<^verbatim>\<open>tucker_to_tensor\<close> fail
  with the \<^verbatim>\<open>ValueError\<close> of their label loop and return nothing; with 26 or fewer this error
  is not raised.
\<close>

theorem too_many_modes:
  fixes fs :: "('a::comm_semiring_1, 'l) matrix list"
  assumes "\<forall>fm \<in> set fs. ndim (asarray fm) = 2"
  shows "(26 < length fs \<longrightarrow>
            cp_to_tensor (w, fs) = Inl ModesValueError \<and>
            tucker_to_tensor (core, fs) = Inl ModesValueError) \<and>
         (length fs \<le> 26 \<longrightarrow>
            cp_to_tensor (w, fs) \<noteq> Inl ModesValueError \<and>
            tucker_to_tensor (core, fs) \<noteq> Inl ModesValueError)"
proof (intro conjI impI)
  assume big: "26 < length fs"
  then have m: "26 \<in> set [0..<length fs]" by simp
  have "\<exists>weights. cp_weights (w, fs) = Inr weights"
  proof (cases w)
    case None
    from big obtain fm fs' where fs: "fs = fm # fs'" by (cases fs) auto
    then have "ndim (asarray fm) = 2" using assms by simp
    then have "\<exists>r. tuple_get (shape (asarray fm)) 1 = Inr r"
      by (simp add: tuple_get_def ndim_def)
    then show ?thesis using None fs by (auto simp: cp_weights_def)
  next
    case (Some w')
    then show ?thesis by (simp add: cp_weights_def reshape_flat)
  qed
  then show "cp_to_tensor (w, fs) = Inl ModesValueError"
    using cp_subscripts_fail [OF m] by (auto simp: cp_to_tensor_def cp_dense_def)
  show "tucker_to_tensor (core, fs) = Inl ModesValueError"
    using tucker_subscripts_fail [OF m] by (simp add: tucker_to_tensor_def)
next
  assume small: "length fs \<le> 26"
  have cw: "cp_weights (w, fs) \<noteq> Inl ModesValueError"
    by (auto simp: cp_weights_def tuple_get_def reshape_flat Let_def split: option.splits list.splits)
  have cd: "cp_dense (w, fs) \<noteq> Inl ModesValueError"
    using cw einsum_not_modes
    by (auto simp: cp_dense_def cp_subscripts_modes [OF small] split: sum.splits)
  have cc: "cp_coords es acc \<noteq> Inl ModesValueError"
    for es :: "(nat \<times> ('a, 'l) matrix) list" and acc
    by (induction es acc rule: cp_coords.induct) (simp_all add: Let_def)
  show "cp_to_tensor (w, fs) \<noteq> Inl ModesValueError"
    using cd cc by (auto simp: cp_to_tensor_def split: sum.splits)
  show "tucker_to_tensor (core, fs) \<noteq> Inl ModesValueError"
    using einsum_not_modes
    by (auto simp: tucker_to_tensor_def tucker_subscripts_modes [OF small] split: sum.splits)
qed

theorem too_many_modes_witness:
  "cp_to_tensor (None, replicate 27 (Array (NDArray [1, 1] [1 :: int]) :: (int, nat) matrix)) = Inl ModesValueError \<and>
   tucker_to_tensor (NDArray [1] [1 :: int], replicate 27 (Array (NDArray [1, 1] [1]) :: (int, nat) matrix)) = Inl ModesValueError \<and>
   cp_to_tensor (None, replicate 26 (Array (NDArray [1, 1] [1 :: int]) :: (int, nat) matrix)) \<noteq> Inl ModesValueError \<and>
   tucker_to_tensor (NDArray [1] [1 :: int], replicate 26 (Array (NDArray [1, 1] [1]) :: (int, nat) matrix)) \<noteq> Inl ModesValueError"
  using too_many_modes [of "replicate 27 (Array (NDArray [1, 1] [1 :: int]) :: (int, nat) matrix)" None "NDArray [1] [1]"]
        too_many_modes [of "replicate 26 (Array (NDArray [1, 1] [1 :: int]) :: (int, nat) matrix)" None "NDArray [1] [1]"]
  by (simp add: ndim_def)

end
